theory Spec2Isabelle
  imports Main "HOL-Library.Word"
begin

unbundle bit_operations_syntax

section \<open>Data model\<close>

text \<open>
  The utilities of \<^verbatim>\<open>utils/cryptoUtils\<close> work on two kinds of data: byte buffers
  (\<^verbatim>\<open>ArrayBuffer\<close> and its \<^verbatim>\<open>Uint8Array\<close> view) and JavaScript strings. A byte is an
  8-bit word; a JavaScript string is a sequence of 16-bit UTF-16 code units.
\<close>

type_synonym byte = "8 word"
type_synonym bytes = "byte list"
type_synonym code_unit = "16 word"
type_synonym jsstring = "code_unit list"

text \<open>An ASCII literal as a JavaScript string: one code unit per character.\<close>

definition js :: "string \<Rightarrow> jsstring" where
  "js s = map (\<lambda>c. word_of_nat (of_char c)) s"

section \<open>The XOR transform\<close>

text \<open>
  \<^verbatim>\<open>for (let i = 0; i < input.length; i++) output[i] = input[i] ^ key[i % keyLength];\<close>
  The loop counter and the output array are the loop's state. It is entered only with
  a non-empty key, so every read of \<^verbatim>\<open>key\<close> is in range, as are the read of
  \<^verbatim>\<open>input\<close> and the write of \<^verbatim>\<open>output\<close>.
\<close>

function xor_loop :: "bytes \<Rightarrow> bytes \<Rightarrow> nat \<Rightarrow> bytes \<Rightarrow> bytes" where
  "xor_loop input key i output =
     (if i < length input
      then xor_loop input key (i + 1) (output[i := (input ! i) XOR (key ! (i mod length key))])
      else output)"
  by pat_completeness auto
termination
  by (relation "measure (\<lambda>(input, key, i, output). length input - i)") auto

declare xor_loop.simps [simp del]

definition xorBuffer :: "bytes \<Rightarrow> bytes \<Rightarrow> bytes" where
  "xorBuffer buffer key =
     (let input = buffer;
          output = replicate (length input) 0;
          keyLength = length key
      in if keyLength = 0 then buffer else xor_loop input key 0 output)"

section \<open>The key codec: hexadecimal\<close>

text \<open>
  \<^verbatim>\<open>hexToUint8Array\<close> is
  \<^verbatim>\<open>const cleanHex = hex.replace(/[^0-9a-fA-F]/g, '');\<close>
  \<^verbatim>\<open>const matches = cleanHex.match(/.{1,2}/g);\<close>
  \<^verbatim>\<open>if (!matches) return new Uint8Array(0);\<close>
  \<^verbatim>\<open>return new Uint8Array(matches.map(byte => parseInt(byte, 16)));\<close>

  The character class \<^verbatim>\<open>[0-9a-fA-F]\<close> is three ranges of code units.
\<close>

definition is_hex_digit :: "code_unit \<Rightarrow> bool" where
  "is_hex_digit c \<longleftrightarrow>
     (0x30 \<le> c \<and> c \<le> 0x39) \<or> (0x61 \<le> c \<and> c \<le> 0x66) \<or> (0x41 \<le> c \<and> c \<le> 0x46)"

definition cleanHex :: "jsstring \<Rightarrow> jsstring" where
  "cleanHex hex = filter is_hex_digit hex"

text \<open>
  The global match of \<^verbatim>\<open>/.{1,2}/g\<close>: scanning from the left, each match takes two
  characters when two are there and one otherwise (the quantifier is greedy), and the
  next match starts where the last one ended. The dot matches every code unit but the
  four line terminators; a position where it does not match is skipped.
\<close>

definition dot_matches :: "code_unit \<Rightarrow> bool" where
  "dot_matches c \<longleftrightarrow> c \<noteq> 0x0A \<and> c \<noteq> 0x0D \<and> c \<noteq> 0x2028 \<and> c \<noteq> 0x2029"

fun match_chunks :: "jsstring \<Rightarrow> jsstring list" where
  "match_chunks [] = []"
| "match_chunks [a] = (if dot_matches a then [[a]] else [])"
| "match_chunks (a # b # cs) =
     (if dot_matches a
      then (if dot_matches b then [a, b] # match_chunks cs else [a] # match_chunks (b # cs))
      else match_chunks (b # cs))"

text \<open>\<^verbatim>\<open>String.prototype.match\<close> with a global pattern gives \<^verbatim>\<open>null\<close> when nothing matches.\<close>

definition string_match :: "jsstring \<Rightarrow> jsstring list option" where
  "string_match s = (case match_chunks s of [] \<Rightarrow> None | m # ms \<Rightarrow> Some (m # ms))"

text \<open>
  \<^verbatim>\<open>parseInt(byte, 16)\<close> reads the longest prefix of hex digits and gives \<^verbatim>\<open>NaN\<close> (here
  \<open>None\<close>) when that prefix is empty. Its handling of leading white space, of a sign
  and of a \<^verbatim>\<open>0x\<close> prefix is left out: the chunks it is applied to are made of hex digits
  only (\<open>cleanHex\<close> has removed everything else).
\<close>

definition hex_digit_value :: "code_unit \<Rightarrow> nat" where
  "hex_digit_value c =
     (if 0x30 \<le> c \<and> c \<le> 0x39 then unat c - 0x30
      else if 0x61 \<le> c \<and> c \<le> 0x66 then unat c - 0x61 + 10
      else unat c - 0x41 + 10)"

definition parseInt16 :: "jsstring \<Rightarrow> nat option" where
  "parseInt16 s =
     (let digits = takeWhile is_hex_digit s
      in if digits = [] then None
         else Some (foldl (\<lambda>acc c. acc * 16 + hex_digit_value c) 0 digits))"

text \<open>Storing a number into a \<^verbatim>\<open>Uint8Array\<close>: \<^verbatim>\<open>NaN\<close> becomes 0, an integer is taken modulo 256.\<close>

definition toUint8 :: "nat option \<Rightarrow> byte" where
  "toUint8 v = (case v of None \<Rightarrow> 0 | Some n \<Rightarrow> word_of_nat (n mod 256))"

definition hexToUint8Array :: "jsstring \<Rightarrow> bytes" where
  "hexToUint8Array hex =
     (let matches = string_match (cleanHex hex)
      in case matches of
           None \<Rightarrow> []
         | Some ms \<Rightarrow> map (\<lambda>byte. toUint8 (parseInt16 byte)) ms)"

text \<open>
  \<^verbatim>\<open>uint8ArrayToHex\<close> is
  \<^verbatim>\<open>Array.from(array).map(b => b.toString(16).padStart(2, '0')).join('')\<close>.
  \<^verbatim>\<open>Number.prototype.toString(16)\<close> writes a non-negative integer in base 16 with the
  digits \<^verbatim>\<open>0-9a-f\<close> and no leading zero.
\<close>

definition hex_digit_char :: "nat \<Rightarrow> code_unit" where
  "hex_digit_char d = (if d < 10 then word_of_nat (0x30 + d) else word_of_nat (0x61 + (d - 10)))"

fun toString16 :: "nat \<Rightarrow> jsstring" where
  "toString16 n =
     (if n < 16 then [hex_digit_char n]
      else toString16 (n div 16) @ [hex_digit_char (n mod 16)])"

declare toString16.simps [simp del]

definition padStart :: "nat \<Rightarrow> code_unit \<Rightarrow> jsstring \<Rightarrow> jsstring" where
  "padStart targetLength pad s = replicate (targetLength - length s) pad @ s"

definition uint8ArrayToHex :: "bytes \<Rightarrow> jsstring" where
  "uint8ArrayToHex array = concat (map (\<lambda>b. padStart 2 0x30 (toString16 (unat b))) array)"

text \<open>
  A list cut into consecutive pairs, with a last singleton when its length is odd. This
  is not a function of the source: it states what \<open>match_chunks\<close> returns on a string
  without line terminators.
\<close>

fun pairs :: "'a list \<Rightarrow> 'a list list" where
  "pairs [] = []"
| "pairs [a] = [[a]]"
| "pairs (a # b # cs) = [a, b] # pairs cs"

section \<open>The key codec: base64\<close>

text \<open>
  The base64 utilities call the platform's \<^verbatim>\<open>btoa\<close> and \<^verbatim>\<open>atob\<close>. Both are modelled after
  their definition in the HTML and Infra standards, over the alphabet of RFC 4648. An
  exception is a value of \<open>js_error\<close>.
\<close>

datatype js_error = InvalidCharacterError | TypeError

text \<open>The alphabet: \<^verbatim>\<open>A-Z\<close> for 0 to 25, \<^verbatim>\<open>a-z\<close> for 26 to 51, \<^verbatim>\<open>0-9\<close> for 52 to 61, then \<^verbatim>\<open>+\<close> and \<^verbatim>\<open>/\<close>.\<close>

definition base64_char :: "nat \<Rightarrow> code_unit" where
  "base64_char n =
     (if n < 26 then word_of_nat (0x41 + n)
      else if n < 52 then word_of_nat (0x61 + (n - 26))
      else if n < 62 then word_of_nat (0x30 + (n - 52))
      else if n = 62 then 0x2B
      else 0x2F)"

definition base64_index :: "code_unit \<Rightarrow> nat option" where
  "base64_index c =
     (if 0x41 \<le> c \<and> c \<le> 0x5A then Some (unat c - 0x41)
      else if 0x61 \<le> c \<and> c \<le> 0x7A then Some (unat c - 0x61 + 26)
      else if 0x30 \<le> c \<and> c \<le> 0x39 then Some (unat c - 0x30 + 52)
      else if c = 0x2B then Some 62
      else if c = 0x2F then Some 63
      else None)"

text \<open>
  Encoding: each group of three bytes gives four 6-bit values; a last group of two bytes
  gives three, a last single byte gives two (the missing bits are zero), and \<^verbatim>\<open>=\<close> pads
  the output to a multiple of four characters.
\<close>

fun sextets :: "bytes \<Rightarrow> nat list" where
  "sextets (x # y # z # rest) =
     [unat x div 4,
      unat x mod 4 * 16 + unat y div 16,
      unat y mod 16 * 4 + unat z div 64,
      unat z mod 64] @ sextets rest"
| "sextets [x, y] = [unat x div 4, unat x mod 4 * 16 + unat y div 16, unat y mod 16 * 4]"
| "sextets [x] = [unat x div 4, unat x mod 4 * 16]"
| "sextets [] = []"

definition base64_encode :: "bytes \<Rightarrow> jsstring" where
  "base64_encode bs =
     map base64_char (sextets bs) @ replicate ((3 - length bs mod 3) mod 3) 0x3D"

text \<open>
  \<^verbatim>\<open>btoa(data)\<close> throws \<^verbatim>\<open>InvalidCharacterError\<close> when a character of \<^verbatim>\<open>data\<close> is above U+00FF;
  otherwise every character is one byte, and the result is their base64 encoding.
\<close>

definition btoa :: "jsstring \<Rightarrow> js_error + jsstring" where
  "btoa data =
     (if \<exists>c \<in> set data. 0xFF < c then Inl InvalidCharacterError
      else Inr (base64_encode (map ucast data)))"

text \<open>
  \<^verbatim>\<open>atob(data)\<close> is the forgiving-base64 decode: ASCII white space is removed; when the
  length is then a multiple of four, one or two trailing \<^verbatim>\<open>=\<close> are removed; a length that
  leaves remainder one, or any character outside the alphabet, is a failure; the 6-bit
  values are then joined, 24 bits giving three bytes, a last 18 bits two bytes and a last
  12 bits one byte (the bits left over are discarded). The result is the string of these
  bytes, and a failure throws \<^verbatim>\<open>InvalidCharacterError\<close>.
\<close>

definition is_ascii_whitespace :: "code_unit \<Rightarrow> bool" where
  "is_ascii_whitespace c \<longleftrightarrow> c = 0x09 \<or> c = 0x0A \<or> c = 0x0C \<or> c = 0x0D \<or> c = 0x20"

definition strip_padding :: "jsstring \<Rightarrow> jsstring" where
  "strip_padding data =
     (if data \<noteq> [] \<and> last data = 0x3D
      then (let data' = butlast data
            in if data' \<noteq> [] \<and> last data' = 0x3D then butlast data' else data')
      else data)"

fun decode_sextets :: "nat list \<Rightarrow> bytes" where
  "decode_sextets (a # b # c # d # rest) =
     [word_of_nat (a * 4 + b div 16),
      word_of_nat (b mod 16 * 16 + c div 4),
      word_of_nat (c mod 4 * 64 + d)] @ decode_sextets rest"
| "decode_sextets [a, b, c] =
     [word_of_nat (a * 4 + b div 16), word_of_nat (b mod 16 * 16 + c div 4)]"
| "decode_sextets [a, b] = [word_of_nat (a * 4 + b div 16)]"
| "decode_sextets [a] = []"
| "decode_sextets [] = []"

definition forgiving_base64_decode :: "jsstring \<Rightarrow> bytes option" where
  "forgiving_base64_decode data =
     (let data = filter (\<lambda>c. \<not> is_ascii_whitespace c) data;
          data = (if length data mod 4 = 0 then strip_padding data else data)
      in if length data mod 4 = 1 then None
         else (case those (map base64_index data) of
                 None \<Rightarrow> None
               | Some sx \<Rightarrow> Some (decode_sextets sx)))"

definition atob :: "jsstring \<Rightarrow> js_error + jsstring" where
  "atob data =
     (case forgiving_base64_decode data of
        None \<Rightarrow> Inl InvalidCharacterError
      | Some bs \<Rightarrow> Inr (map ucast bs))"

text \<open>
  \<^verbatim>\<open>base64ToUint8Array\<close>: the body of the \<^verbatim>\<open>try\<close> block calls \<^verbatim>\<open>atob\<close> and copies the
  character codes into a new array,
  \<^verbatim>\<open>for (let i = 0; i < binary.length; i++) bytes[i] = binary.charCodeAt(i);\<close>
  and the \<^verbatim>\<open>catch\<close> block returns \<^verbatim>\<open>new Uint8Array(0)\<close> for every exception.
\<close>

function charCode_loop :: "jsstring \<Rightarrow> nat \<Rightarrow> bytes \<Rightarrow> bytes" where
  "charCode_loop binary i bytes =
     (if i < length binary
      then charCode_loop binary (i + 1) (bytes[i := ucast (binary ! i)])
      else bytes)"
  by pat_completeness auto
termination
  by (relation "measure (\<lambda>(binary, i, bytes). length binary - i)") auto

declare charCode_loop.simps [simp del]

definition base64ToUint8Array :: "jsstring \<Rightarrow> bytes" where
  "base64ToUint8Array base64 =
     (case atob base64 of
        Inr binary \<Rightarrow> charCode_loop binary 0 (replicate (length binary) 0)
      | Inl e \<Rightarrow> [])"

text \<open>
  \<^verbatim>\<open>uint8ArrayToBase64\<close>: the loop appends \<^verbatim>\<open>String.fromCharCode(array[i])\<close> to \<^verbatim>\<open>binary\<close>
  for every byte, and the result is \<^verbatim>\<open>btoa(binary)\<close>; nothing catches what \<^verbatim>\<open>btoa\<close> throws.
\<close>

fun fromCharCode_loop :: "bytes \<Rightarrow> jsstring \<Rightarrow> jsstring" where
  "fromCharCode_loop [] binary = binary"
| "fromCharCode_loop (b # array) binary = fromCharCode_loop array (binary @ [ucast b])"

definition uint8ArrayToBase64 :: "bytes \<Rightarrow> js_error + jsstring" where
  "uint8ArrayToBase64 array = btoa (fromCharCode_loop array [])"

section \<open>The key codec: text\<close>

text \<open>
  \<^verbatim>\<open>stringToUint8Array\<close> is \<^verbatim>\<open>new TextEncoder().encode(str)\<close>, and \<^verbatim>\<open>uint8ArrayToString\<close> is
  \<^verbatim>\<open>new TextDecoder('utf-8', { fatal: true }).decode(array)\<close> inside a \<^verbatim>\<open>try\<close> whose
  \<^verbatim>\<open>catch\<close> returns \<^verbatim>\<open>"[Binary Content]"\<close>. Both platform classes are modelled after the
  Encoding standard. A code point is a natural number.

  The UTF-8 encoder: one byte below U+0080; otherwise a lead byte that carries the top
  bits above an offset of \<^verbatim>\<open>0xC0\<close>, \<^verbatim>\<open>0xE0\<close> or \<^verbatim>\<open>0xF0\<close>, followed by one, two or three
  bytes \<^verbatim>\<open>0x80 | (bits & 0x3F)\<close>.
\<close>

definition utf8_encode_code_point :: "nat \<Rightarrow> bytes" where
  "utf8_encode_code_point cp =
     (if cp < 0x80 then [word_of_nat cp]
      else if cp < 0x800 then
        [word_of_nat (cp div 64 + 0xC0), word_of_nat (0x80 + cp mod 64)]
      else if cp < 0x10000 then
        [word_of_nat (cp div 4096 + 0xE0), word_of_nat (0x80 + cp div 64 mod 64),
         word_of_nat (0x80 + cp mod 64)]
      else
        [word_of_nat (cp div 262144 + 0xF0), word_of_nat (0x80 + cp div 4096 mod 64),
         word_of_nat (0x80 + cp div 64 mod 64), word_of_nat (0x80 + cp mod 64)])"

text \<open>
  \<^verbatim>\<open>encode\<close> takes a string of scalar values: of the UTF-16 code units of the JavaScript
  string, a high surrogate followed by a low surrogate is one code point above U+FFFF,
  and any other surrogate is replaced by U+FFFD.
\<close>

definition is_high_surrogate :: "code_unit \<Rightarrow> bool" where
  "is_high_surrogate c \<longleftrightarrow> 0xD800 \<le> c \<and> c \<le> 0xDBFF"

definition is_low_surrogate :: "code_unit \<Rightarrow> bool" where
  "is_low_surrogate c \<longleftrightarrow> 0xDC00 \<le> c \<and> c \<le> 0xDFFF"

fun to_scalar_values :: "jsstring \<Rightarrow> nat list" where
  "to_scalar_values [] = []"
| "to_scalar_values [c] =
     (if is_high_surrogate c \<or> is_low_surrogate c then [0xFFFD] else [unat c])"
| "to_scalar_values (c # d # rest) =
     (if is_high_surrogate c then
        (if is_low_surrogate d
         then (0x10000 + (unat c - 0xD800) * 0x400 + (unat d - 0xDC00)) # to_scalar_values rest
         else 0xFFFD # to_scalar_values (d # rest))
      else if is_low_surrogate c then 0xFFFD # to_scalar_values (d # rest)
      else unat c # to_scalar_values (d # rest))"

definition stringToUint8Array :: "jsstring \<Rightarrow> bytes" where
  "stringToUint8Array str = concat (map utf8_encode_code_point (to_scalar_values str))"

text \<open>
  The UTF-8 decoder is a state machine over the bytes. Its state is the code point read
  so far, the number of continuation bytes seen and needed, and the bounds of the next
  continuation byte (narrower after the lead bytes \<^verbatim>\<open>E0\<close>, \<^verbatim>\<open>ED\<close>, \<^verbatim>\<open>F0\<close> and \<^verbatim>\<open>F4\<close>, which
  excludes overlong forms, surrogates and code points above U+10FFFF).
\<close>

record utf8_decoder =
  code_point :: nat
  bytes_seen :: nat
  bytes_needed :: nat
  lower_boundary :: byte
  upper_boundary :: byte

definition new_utf8_decoder :: utf8_decoder where
  "new_utf8_decoder =
     \<lparr>code_point = 0, bytes_seen = 0, bytes_needed = 0,
      lower_boundary = 0x80, upper_boundary = 0xBF\<rparr>"

text \<open>
  One step of the decoder on one byte: \<open>None\<close> is an error, which the \<^verbatim>\<open>fatal\<close> mode turns
  into a \<^verbatim>\<open>TypeError\<close>; otherwise the new state and, when a sequence is complete, its code
  point.
\<close>

definition utf8_handler :: "utf8_decoder \<Rightarrow> byte \<Rightarrow> (utf8_decoder \<times> nat option) option" where
  "utf8_handler d byte =
     (if bytes_needed d = 0 then
        (if byte \<le> 0x7F then Some (d, Some (unat byte))
         else if 0xC2 \<le> byte \<and> byte \<le> 0xDF then
           Some (d\<lparr>bytes_needed := 1, code_point := unat (byte AND 0x1F)\<rparr>, None)
         else if 0xE0 \<le> byte \<and> byte \<le> 0xEF then
           Some (d\<lparr>lower_boundary := (if byte = 0xE0 then 0xA0 else lower_boundary d),
                   upper_boundary := (if byte = 0xED then 0x9F else upper_boundary d),
                   bytes_needed := 2, code_point := unat (byte AND 0xF)\<rparr>, None)
         else if 0xF0 \<le> byte \<and> byte \<le> 0xF4 then
           Some (d\<lparr>lower_boundary := (if byte = 0xF0 then 0x90 else lower_boundary d),
                   upper_boundary := (if byte = 0xF4 then 0x8F else upper_boundary d),
                   bytes_needed := 3, code_point := unat (byte AND 0x7)\<rparr>, None)
         else None)
      else if \<not> (lower_boundary d \<le> byte \<and> byte \<le> upper_boundary d) then None
      else
        (let d' = d\<lparr>lower_boundary := 0x80, upper_boundary := 0xBF,
                      code_point := push_bit 6 (code_point d) OR unat (byte AND 0x3F),
                      bytes_seen := bytes_seen d + 1\<rparr>
         in if bytes_seen d' \<noteq> bytes_needed d' then Some (d', None)
            else Some (d'\<lparr>code_point := 0, bytes_needed := 0, bytes_seen := 0\<rparr>,
                       Some (code_point d'))))"

text \<open>
  The decoder runs over all bytes; at the end of the input an unfinished sequence
  (\<open>bytes_needed\<close> not zero) is an error too.
\<close>

fun utf8_decode_loop :: "utf8_decoder \<Rightarrow> bytes \<Rightarrow> nat list option" where
  "utf8_decode_loop d [] = (if bytes_needed d \<noteq> 0 then None else Some [])"
| "utf8_decode_loop d (byte # rest) =
     (case utf8_handler d byte of
        None \<Rightarrow> None
      | Some (d', out) \<Rightarrow>
          (case utf8_decode_loop d' rest of
             None \<Rightarrow> None
           | Some cps \<Rightarrow> Some (case out of None \<Rightarrow> cps | Some cp \<Rightarrow> cp # cps)))"

text \<open>
  The decoder is created without \<^verbatim>\<open>ignoreBOM\<close>, so its output drops a leading U+FEFF, the
  byte order mark. The code points are then written as UTF-16 code units, a code point
  above U+FFFF as a surrogate pair.
\<close>

definition strip_bom :: "nat list \<Rightarrow> nat list" where
  "strip_bom cps = (case cps of [] \<Rightarrow> [] | cp # rest \<Rightarrow> if cp = 0xFEFF then rest else cp # rest)"

definition utf16_code_units :: "nat \<Rightarrow> jsstring" where
  "utf16_code_units cp =
     (if cp < 0x10000 then [word_of_nat cp]
      else [word_of_nat (0xD800 + (cp - 0x10000) div 0x400),
            word_of_nat (0xDC00 + (cp - 0x10000) mod 0x400)])"

definition text_decode_fatal :: "bytes \<Rightarrow> js_error + jsstring" where
  "text_decode_fatal input =
     (case utf8_decode_loop new_utf8_decoder input of
        None \<Rightarrow> Inl TypeError
      | Some cps \<Rightarrow> Inr (concat (map utf16_code_units (strip_bom cps))))"

definition uint8ArrayToString :: "bytes \<Rightarrow> jsstring" where
  "uint8ArrayToString array =
     (case text_decode_fatal array of
        Inr s \<Rightarrow> s
      | Inl e \<Rightarrow> js ''[Binary Content]'')"

text \<open>
  Valid UTF-8, after the table of well-formed byte sequences of the Unicode standard
  (the syntax of RFC 3629). It is stated on the bytes alone, without the decoder.
\<close>

definition is_continuation :: "byte \<Rightarrow> bool" where
  "is_continuation b \<longleftrightarrow> 0x80 \<le> b \<and> b \<le> 0xBF"

fun valid_utf8 :: "bytes \<Rightarrow> bool" where
  "valid_utf8 [] = True"
| "valid_utf8 (b0 # bs) =
     (if b0 \<le> 0x7F then valid_utf8 bs
      else if 0xC2 \<le> b0 \<and> b0 \<le> 0xDF then
        (case bs of
           b1 # rest \<Rightarrow> is_continuation b1 \<and> valid_utf8 rest
         | _ \<Rightarrow> False)
      else if 0xE0 \<le> b0 \<and> b0 \<le> 0xEF then
        (case bs of
           b1 # b2 # rest \<Rightarrow>
             ((b0 = 0xE0 \<and> 0xA0 \<le> b1 \<and> b1 \<le> 0xBF) \<or>
              (0xE1 \<le> b0 \<and> b0 \<le> 0xEC \<and> is_continuation b1) \<or>
              (b0 = 0xED \<and> 0x80 \<le> b1 \<and> b1 \<le> 0x9F) \<or>
              (0xEE \<le> b0 \<and> b0 \<le> 0xEF \<and> is_continuation b1)) \<and>
             is_continuation b2 \<and> valid_utf8 rest
         | _ \<Rightarrow> False)
      else if 0xF0 \<le> b0 \<and> b0 \<le> 0xF4 then
        (case bs of
           b1 # b2 # b3 # rest \<Rightarrow>
             ((b0 = 0xF0 \<and> 0x90 \<le> b1 \<and> b1 \<le> 0xBF) \<or>
              (0xF1 \<le> b0 \<and> b0 \<le> 0xF3 \<and> is_continuation b1) \<or>
              (b0 = 0xF4 \<and> 0x80 \<le> b1 \<and> b1 \<le> 0x8F)) \<and>
             is_continuation b2 \<and> is_continuation b3 \<and> valid_utf8 rest
         | _ \<Rightarrow> False)
      else False)"

text \<open>
  Two notions for the proofs, neither a function of the source: the code points that
  are scalar values, and the statement that the decoder accepts exactly the valid byte
  sequences, with scalar values that encode back to the input.
\<close>

definition scalar_value :: "nat \<Rightarrow> bool" where
  "scalar_value cp \<longleftrightarrow> cp < 0xD800 \<or> (0xE000 \<le> cp \<and> cp \<le> 0x10FFFF)"

definition decoder_agrees :: "bytes \<Rightarrow> bool" where
  "decoder_agrees b \<longleftrightarrow>
     (case utf8_decode_loop new_utf8_decoder b of
        None \<Rightarrow> \<not> valid_utf8 b
      | Some cps \<Rightarrow>
          valid_utf8 b \<and> list_all scalar_value cps \<and>
          concat (map utf8_encode_code_point cps) = b)"

declare utf8_decode_loop.simps [simp del]

section \<open>Properties of the XOR transform\<close>

lemma xor_loop_eq:
  "i \<le> length input \<Longrightarrow> length out = length input \<Longrightarrow>
   xor_loop input key i out =
     take i out @ map (\<lambda>j. (input ! j) XOR (key ! (j mod length key))) [i..<length input]"
proof (induction input key i out rule: xor_loop.induct)
  case (1 input key i out)
  show ?case
  proof (cases "i < length input")
    case True
    let ?v = "(input ! i) XOR (key ! (i mod length key))"
    have "xor_loop input key i out = xor_loop input key (i + 1) (out[i := ?v])"
      using True by (subst xor_loop.simps) simp
    also have "\<dots> = take (i + 1) (out[i := ?v]) @
        map (\<lambda>j. (input ! j) XOR (key ! (j mod length key))) [i + 1..<length input]"
      using True "1.prems" by (intro "1.IH") simp_all
    also have "take (i + 1) (out[i := ?v]) = take i out @ [?v]"
      using True "1.prems" by (simp add: take_Suc_conv_app_nth)
    finally show ?thesis
      using True by (simp add: upt_conv_Cons)
  next
    case False
    then show ?thesis
      using "1.prems" by (subst xor_loop.simps) simp
  qed
qed

lemma xorBuffer_map:
  "key \<noteq> [] \<Longrightarrow>
   xorBuffer buffer key =
     map (\<lambda>j. (buffer ! j) XOR (key ! (j mod length key))) [0..<length buffer]"
  by (simp add: xorBuffer_def xor_loop_eq)

lemma xorBuffer_length: "length (xorBuffer buffer key) = length buffer"
  by (cases "key = []") (simp_all add: xorBuffer_map, simp add: xorBuffer_def)

lemma xorBuffer_nth:
  "key \<noteq> [] \<Longrightarrow> i < length buffer \<Longrightarrow>
   xorBuffer buffer key ! i = (buffer ! i) XOR (key ! (i mod length key))"
  by (simp add: xorBuffer_map)

text \<open>
  C1. For every byte sequence \<open>b\<close> and every non-empty key \<open>k\<close>, applying the XOR
  transform twice with the same key gives \<open>b\<close> back.
\<close>

theorem xorBuffer_involution:
  "k \<noteq> [] \<Longrightarrow> xorBuffer (xorBuffer b k) k = b"
proof (rule nth_equalityI)
  show "length (xorBuffer (xorBuffer b k) k) = length b"
    by (simp add: xorBuffer_length)
next
  fix i
  assume k: "k \<noteq> []" and "i < length (xorBuffer (xorBuffer b k) k)"
  then have i: "i < length b"
    by (simp add: xorBuffer_length)
  then have "xorBuffer (xorBuffer b k) k ! i
      = ((b ! i) XOR (k ! (i mod length k))) XOR (k ! (i mod length k))"
    using k by (simp add: xorBuffer_nth xorBuffer_length)
  then show "xorBuffer (xorBuffer b k) k ! i = b ! i"
    by (simp add: xor.assoc)
qed

theorem xorBuffer_involution_witness:
  "[0x2A] \<noteq> ([] :: bytes) \<and>
   xorBuffer [0x48, 0x65, 0x6C, 0x6C, 0x6F] [0x2A] = [0x62, 0x4F, 0x46, 0x46, 0x45] \<and>
   xorBuffer (xorBuffer [0x48, 0x65, 0x6C, 0x6C, 0x6F] [0x2A]) [0x2A]
     = [0x48, 0x65, 0x6C, 0x6C, 0x6F]"
  using xorBuffer_involution [of "[0x2A]" "[0x48, 0x65, 0x6C, 0x6C, 0x6F]"]
  by (simp add: xorBuffer_map upt_conv_Cons)

text \<open>
  C2. For every input \<open>b\<close> and every non-empty key \<open>k\<close>, the output has the length of
  \<open>b\<close>, and its byte at every position \<open>i\<close> is \<open>b[i] XOR k[i mod len(k)]\<close>.
\<close>

theorem xorBuffer_spec:
  "k \<noteq> [] \<Longrightarrow>
   length (xorBuffer b k) = length b \<and>
   (\<forall>i < length b. xorBuffer b k ! i = (b ! i) XOR (k ! (i mod length k)))"
  by (simp add: xorBuffer_length xorBuffer_nth)

theorem xorBuffer_spec_witness:
  "[0x0F, 0xF0] \<noteq> ([] :: bytes) \<and>
   length (xorBuffer [0x01, 0x02, 0x03] [0x0F, 0xF0]) = 3 \<and>
   xorBuffer [0x01, 0x02, 0x03] [0x0F, 0xF0] ! 0 = 0x01 XOR 0x0F \<and>
   xorBuffer [0x01, 0x02, 0x03] [0x0F, 0xF0] ! 1 = 0x02 XOR 0xF0 \<and>
   xorBuffer [0x01, 0x02, 0x03] [0x0F, 0xF0] ! 2 = 0x03 XOR 0x0F"
  using xorBuffer_spec [of "[0x0F, 0xF0]" "[0x01, 0x02, 0x03]"]
  by (simp add: numeral_3_eq_3 numeral_2_eq_2 less_Suc_eq)

text \<open>
  C6. With an empty key the transform returns its input unchanged: the guard
  \<^verbatim>\<open>if (keyLength === 0) return buffer\<close> comes before the loop.
\<close>

theorem xorBuffer_empty_key: "xorBuffer b [] = b"
  by (simp add: xorBuffer_def)

theorem xorBuffer_empty_key_witness: "xorBuffer [0x48, 0x65, 0x6C] [] = [0x48, 0x65, 0x6C]"
  using xorBuffer_empty_key [of "[0x48, 0x65, 0x6C]"] by simp

section \<open>Properties of the hexadecimal codec\<close>

lemma nat_less_16_cases:
  "d < 16 \<Longrightarrow> d \<in> {0, 1, 2, 3, 4, 5, 6, 7, 8, 9, 10, 11, 12, 13, 14, 15 :: nat}"
  by simp arith

lemma is_hex_digit_char: "d < 16 \<Longrightarrow> is_hex_digit (hex_digit_char d)"
  using nat_less_16_cases [of d] by (auto simp: is_hex_digit_def hex_digit_char_def)

lemma hex_digit_value_char: "d < 16 \<Longrightarrow> hex_digit_value (hex_digit_char d) = d"
  using nat_less_16_cases [of d] by (auto simp: hex_digit_value_def hex_digit_char_def)

lemma hex_digit_char_alphabet: "d < 16 \<Longrightarrow> hex_digit_char d = js ''0123456789abcdef'' ! d"
  using nat_less_16_cases [of d] by (auto simp: hex_digit_char_def js_def)

lemma hex_digit_value_less: "is_hex_digit c \<Longrightarrow> hex_digit_value c < 16"
  unfolding is_hex_digit_def hex_digit_value_def
  by (auto simp: word_le_nat_alt)

lemma is_hex_digit_dot: "is_hex_digit c \<Longrightarrow> dot_matches c"
  unfolding is_hex_digit_def dot_matches_def by auto

lemma match_chunks_pairs: "\<forall>c \<in> set s. dot_matches c \<Longrightarrow> match_chunks s = pairs s"
  by (induction s rule: pairs.induct) simp_all



lemma hexToUint8Array_map:
  "hexToUint8Array hex = map (\<lambda>byte. toUint8 (parseInt16 byte)) (pairs (cleanHex hex))"
proof -
  have "match_chunks (cleanHex hex) = pairs (cleanHex hex)"
    by (rule match_chunks_pairs) (simp add: cleanHex_def is_hex_digit_dot)
  then show ?thesis
    by (simp add: hexToUint8Array_def string_match_def split: list.splits)
qed


lemma parseInt16_two:
  "is_hex_digit a \<Longrightarrow> is_hex_digit b \<Longrightarrow>
   parseInt16 [a, b] = Some (hex_digit_value a * 16 + hex_digit_value b)"
  by (simp add: parseInt16_def)

lemma toString16_byte:
  assumes "n < 256"
  shows "padStart 2 0x30 (toString16 n) = [hex_digit_char (n div 16), hex_digit_char (n mod 16)]"
proof (cases "n < 16")
  case True
  then show ?thesis
    by (simp add: toString16.simps [of n] padStart_def hex_digit_char_def)
next
  case False
  with assms have "n div 16 < 16" by simp
  then have "toString16 (n div 16) = [hex_digit_char (n div 16)]"
    by (simp add: toString16.simps [of "n div 16"])
  with False show ?thesis
    by (simp add: toString16.simps [of n] padStart_def)
qed

lemma uint8ArrayToHex_Cons:
  "uint8ArrayToHex (b # bs) =
     hex_digit_char (unat b div 16) # hex_digit_char (unat b mod 16) # uint8ArrayToHex bs"
proof -
  have "unat b < 256" using unsigned_less [of b, where ?'a = nat] by simp
  then show ?thesis by (simp add: uint8ArrayToHex_def toString16_byte)
qed

lemma uint8ArrayToHex_Nil: "uint8ArrayToHex [] = []"
  by (simp add: uint8ArrayToHex_def)

lemma unat_div_16: "unat (b :: byte) div 16 < 16"
  using unsigned_less [of b, where ?'a = nat] by simp

lemma cleanHex_uint8ArrayToHex: "cleanHex (uint8ArrayToHex bs) = uint8ArrayToHex bs"
  by (induction bs)
     (simp_all add: uint8ArrayToHex_Nil uint8ArrayToHex_Cons cleanHex_def is_hex_digit_char unat_div_16)

lemma unat_byte_less: "unat (b :: byte) < 256"
  using unsigned_less [of b, where ?'a = nat] by simp

lemma hex_round_trip: "hexToUint8Array (uint8ArrayToHex bs) = bs"
proof -
  have "map (\<lambda>byte. toUint8 (parseInt16 byte)) (pairs (uint8ArrayToHex bs)) = bs"
  proof (induction bs)
    case Nil
    show ?case by (simp add: uint8ArrayToHex_Nil)
  next
    case (Cons b bs)
    have "toUint8 (parseInt16 [hex_digit_char (unat b div 16), hex_digit_char (unat b mod 16)]) = b"
      by (simp add: parseInt16_two is_hex_digit_char hex_digit_value_char unat_div_16
          toUint8_def unat_byte_less)
    with Cons show ?case
      by (simp add: uint8ArrayToHex_Cons)
  qed
  then show ?thesis
    by (simp add: hexToUint8Array_map cleanHex_uint8ArrayToHex)
qed

lemmas hex_eval =
  js_def hexToUint8Array_def cleanHex_def is_hex_digit_def string_match_def dot_matches_def
  parseInt16_def toUint8_def hex_digit_value_def

text \<open>
  C3. Decoding the hex encoding of any byte sequence gives the sequence back, and the
  encoding renders each byte as exactly two lowercase hex digits, with no separators.
\<close>

theorem hex_decode_encode:
  "hexToUint8Array (uint8ArrayToHex b) = b \<and>
   uint8ArrayToHex b =
     concat (map (\<lambda>x. [js ''0123456789abcdef'' ! (unat x div 16),
                         js ''0123456789abcdef'' ! (unat x mod 16)]) b)"
proof
  show "hexToUint8Array (uint8ArrayToHex b) = b"
    by (rule hex_round_trip)
  show "uint8ArrayToHex b =
     concat (map (\<lambda>x. [js ''0123456789abcdef'' ! (unat x div 16),
                         js ''0123456789abcdef'' ! (unat x mod 16)]) b)"
    by (induction b)
       (simp_all add: uint8ArrayToHex_Nil uint8ArrayToHex_Cons unat_div_16
          hex_digit_char_alphabet [symmetric])
qed

theorem hex_decode_encode_witness:
  "hexToUint8Array (uint8ArrayToHex [0xDE, 0x0A, 0x00, 0xFF]) = [0xDE, 0x0A, 0x00, 0xFF] \<and>
   uint8ArrayToHex [0xDE, 0x0A, 0x00, 0xFF] = js ''de0a00ff''"
proof -
  have enc: "uint8ArrayToHex [0xDE, 0x0A, 0x00, 0xFF] = js ''de0a00ff''"
    by (simp add: uint8ArrayToHex_Cons uint8ArrayToHex_Nil hex_digit_char_def js_def)
  from hex_decode_encode [of "[0xDE, 0x0A, 0x00, 0xFF]"]
  have "hexToUint8Array (uint8ArrayToHex [0xDE, 0x0A, 0x00, 0xFF]) = [0xDE, 0x0A, 0x00, 0xFF]"
    by (rule conjunct1)
  then show ?thesis
    using enc by (rule conjI)
qed

lemma nat_range_cases:
  fixes u :: nat
  assumes "lo \<le> u" and "u \<le> lo + n"
  shows "u \<in> set (map (\<lambda>k. lo + k) [0..<Suc n])"
proof -
  from assms have "u = lo + (u - lo)" "u - lo < Suc n"
    by linarith+
  then show ?thesis
    by (metis (no_types, lifting) atLeastLessThan_iff image_eqI le0 set_map set_upt)
qed

lemma is_hex_digit_alphabet: "is_hex_digit c \<longleftrightarrow> c \<in> set (js ''0123456789abcdefABCDEF'')"
proof
  assume "c \<in> set (js ''0123456789abcdefABCDEF'')"
  then show "is_hex_digit c"
    by (auto simp: js_def is_hex_digit_def)
next
  assume "is_hex_digit c"
  then consider "48 \<le> unat c" "unat c \<le> 48 + 9" | "97 \<le> unat c" "unat c \<le> 97 + 5"
    | "65 \<le> unat c" "unat c \<le> 65 + 5"
    by (auto simp: is_hex_digit_def word_le_nat_alt)
  then have "unat c \<in> set (map unat (js ''0123456789abcdefABCDEF''))"
  proof cases
    case 1
    from nat_range_cases [OF 1] show ?thesis
      by (auto simp: js_def upt_conv_Cons)
  next
    case 2
    from nat_range_cases [OF 2] show ?thesis
      by (auto simp: js_def upt_conv_Cons)
  next
    case 3
    from nat_range_cases [OF 3] show ?thesis
      by (auto simp: js_def upt_conv_Cons)
  qed
  then obtain x where "x \<in> set (js ''0123456789abcdefABCDEF'')" and "unat c = unat x"
    by auto
  then show "c \<in> set (js ''0123456789abcdefABCDEF'')"
    by (auto dest: unsigned_word_eqI)
qed

lemma hex_digit_alphabets:
  assumes "d < 16"
  shows "is_hex_digit (js ''0123456789abcdef'' ! d)" "is_hex_digit (js ''0123456789ABCDEF'' ! d)"
    "hex_digit_value (js ''0123456789abcdef'' ! d) = d"
    "hex_digit_value (js ''0123456789ABCDEF'' ! d) = d"
  using nat_less_16_cases [OF assms]
  by (auto simp: js_def is_hex_digit_def hex_digit_value_def)

lemma hexToUint8Array_pair:
  assumes "is_hex_digit a" and "is_hex_digit b"
  shows "hexToUint8Array (a # b # t) =
     word_of_nat (16 * hex_digit_value a + hex_digit_value b) # hexToUint8Array t"
proof -
  have "hex_digit_value a < 16" "hex_digit_value b < 16"
    using assms by (simp_all add: hex_digit_value_less)
  then have "hex_digit_value a * 16 + hex_digit_value b < 256"
    by linarith
  then show ?thesis
    using assms
    by (simp add: hexToUint8Array_map cleanHex_def parseInt16_two toUint8_def mult.commute)
qed

text \<open>
  C9. Hex decoding strips every character outside \<open>[0-9a-fA-F]\<close> before it parses, and
  reads every digit in uppercase and in lowercase alike: a pair of digits of values \<open>d1\<close>
  and \<open>d2\<close>, each written in either case, gives the byte \<open>16 * d1 + d2\<close>. In particular
  \<open>"de:ad-BE#EF"\<close> decodes to \<open>DE AD BE EF\<close>, and a string with no hex digit decodes to the
  empty sequence.
\<close>

theorem hex_decode_strips:
  "(is_hex_digit c \<longleftrightarrow> c \<in> set (js ''0123456789abcdefABCDEF'')) \<and>
   hexToUint8Array s = hexToUint8Array (filter is_hex_digit s) \<and>
   (d1 < 16 \<and> d2 < 16 \<and>
    (a = js ''0123456789abcdef'' ! d1 \<or> a = js ''0123456789ABCDEF'' ! d1) \<and>
    (b = js ''0123456789abcdef'' ! d2 \<or> b = js ''0123456789ABCDEF'' ! d2) \<longrightarrow>
      hexToUint8Array (a # b # t) = word_of_nat (16 * d1 + d2) # hexToUint8Array t) \<and>
   hexToUint8Array (js ''de:ad-BE#EF'') = [0xDE, 0xAD, 0xBE, 0xEF] \<and>
   hexToUint8Array (js ''DEADBEEF'') = hexToUint8Array (js ''deadbeef'') \<and>
   ((\<forall>c \<in> set s. \<not> is_hex_digit c) \<longrightarrow> hexToUint8Array s = [])"
proof (intro conjI impI)
  show "is_hex_digit c \<longleftrightarrow> c \<in> set (js ''0123456789abcdefABCDEF'')"
    by (rule is_hex_digit_alphabet)
  show "hexToUint8Array s = hexToUint8Array (filter is_hex_digit s)"
    by (simp add: hexToUint8Array_map cleanHex_def)
  show "hexToUint8Array (js ''de:ad-BE#EF'') = [0xDE, 0xAD, 0xBE, 0xEF]"
    by (simp add: hex_eval)
  show "hexToUint8Array (js ''DEADBEEF'') = hexToUint8Array (js ''deadbeef'')"
    by (simp add: hex_eval)
next
  assume digits: "d1 < 16 \<and> d2 < 16 \<and>
    (a = js ''0123456789abcdef'' ! d1 \<or> a = js ''0123456789ABCDEF'' ! d1) \<and>
    (b = js ''0123456789abcdef'' ! d2 \<or> b = js ''0123456789ABCDEF'' ! d2)"
  then have "is_hex_digit a" "hex_digit_value a = d1" "is_hex_digit b" "hex_digit_value b = d2"
    using hex_digit_alphabets [of d1] hex_digit_alphabets [of d2] by auto
  then show "hexToUint8Array (a # b # t) = word_of_nat (16 * d1 + d2) # hexToUint8Array t"
    using hexToUint8Array_pair [of a b t] by simp
next
  assume "\<forall>c \<in> set s. \<not> is_hex_digit c"
  then have "cleanHex s = []"
    by (simp add: cleanHex_def)
  then show "hexToUint8Array s = []"
    by (simp add: hexToUint8Array_map)
qed

theorem hex_decode_strips_witness:
  "list_all (\<lambda>c. \<not> is_hex_digit c) (js ''xy: #!'') \<and> hexToUint8Array (js ''xy: #!'') = [] \<and>
   hexToUint8Array (js ''Be'') = [0xBE] \<and> hexToUint8Array (js ''bE'') = [0xBE]"
proof -
  have no_hex: "list_all (\<lambda>c. \<not> is_hex_digit c) (js ''xy: #!'')"
    by (simp add: js_def is_hex_digit_def)
  then have "\<forall>c \<in> set (js ''xy: #!''). \<not> is_hex_digit c"
    by (simp add: list_all_iff)
  with hex_decode_strips [of _ "js ''xy: #!''"] have none: "hexToUint8Array (js ''xy: #!'') = []"
    by blast
  have digits: "(11 :: nat) < 16 \<and> (14 :: nat) < 16"
    by simp
  have upper: "js ''0123456789ABCDEF'' ! 11 = 0x42" "js ''0123456789ABCDEF'' ! 14 = 0x45"
    and lower: "js ''0123456789abcdef'' ! 11 = 0x62" "js ''0123456789abcdef'' ! 14 = 0x65"
    and empty: "hexToUint8Array [] = []"
    and strings: "js ''Be'' = [0x42, 0x65]" "js ''bE'' = [0x62, 0x45]"
    by (simp_all add: js_def hexToUint8Array_map cleanHex_def)
  from hex_decode_strips [of _ _ 11 14 "0x42" "0x65" "[]"] digits upper lower empty
  have first: "hexToUint8Array [0x42, 0x65] = [0xBE]"
    by simp
  from hex_decode_strips [of _ _ 11 14 "0x62" "0x45" "[]"] digits upper lower empty
  have second: "hexToUint8Array [0x62, 0x45] = [0xBE]"
    by simp
  from no_hex none first second show ?thesis
    unfolding strings by (intro conjI)
qed






section \<open>Properties of the base64 codec\<close>

lemma unat_word_of_nat_16: "m < 65536 \<Longrightarrow> unat (word_of_nat m :: code_unit) = m"
  by (simp add: unat_of_nat)

lemma unat_base64_char:
  "n < 64 \<Longrightarrow>
   unat (base64_char n) =
     (if n < 26 then 65 + n else if n < 52 then 71 + n else if n < 62 then n - 4
      else if n = 62 then 43 else 47)"
  unfolding base64_char_def
  by (simp add: unat_word_of_nat_16 del: of_nat_add of_nat_diff)

lemma base64_index_unat:
  "base64_index c =
     (if 65 \<le> unat c \<and> unat c \<le> 90 then Some (unat c - 65)
      else if 97 \<le> unat c \<and> unat c \<le> 122 then Some (unat c - 97 + 26)
      else if 48 \<le> unat c \<and> unat c \<le> 57 then Some (unat c - 48 + 52)
      else if unat c = 43 then Some 62
      else if unat c = 47 then Some 63
      else None)"
  unfolding base64_index_def
  by (simp add: word_le_nat_alt word_eq_iff_unsigned [where ?'a = nat])

lemma base64_ranges:
  assumes "n < (64 :: nat)"
  obtains "n < 26" | k where "n = 26 + k" "k < 26" | k where "n = 52 + k" "k < 10"
    | "n = 62" | "n = 63"
proof -
  from assms consider "n < 26" | "26 \<le> n \<and> n < 52" | "52 \<le> n \<and> n < 62" | "n = 62" | "n = 63"
    by linarith
  then show thesis
  proof cases
    case 1
    then show thesis by (rule that(1))
  next
    case 2
    then have "n = 26 + (n - 26)" "n - 26 < 26" by linarith+
    then show thesis by (rule that(2))
  next
    case 3
    then have "n = 52 + (n - 52)" "n - 52 < 10" by linarith+
    then show thesis by (rule that(3))
  next
    case 4
    then show thesis by (rule that(4))
  next
    case 5
    then show thesis by (rule that(5))
  qed
qed

lemma base64_char_props:
  assumes "n < 64"
  shows "base64_index (base64_char n) = Some n \<and> base64_char n \<noteq> 0x3D
    \<and> \<not> is_ascii_whitespace (base64_char n)"
  using assms
proof (cases rule: base64_ranges)
  case 1
  then show ?thesis
    by (simp add: base64_index_unat is_ascii_whitespace_def
        word_eq_iff_unsigned [where ?'a = nat] unat_base64_char)
next
  case (2 k)
  then show ?thesis
    by (simp add: base64_index_unat is_ascii_whitespace_def
        word_eq_iff_unsigned [where ?'a = nat] unat_base64_char)
next
  case (3 k)
  then show ?thesis
    by (simp add: base64_index_unat is_ascii_whitespace_def
        word_eq_iff_unsigned [where ?'a = nat] unat_base64_char)
next
  case 4
  then show ?thesis
    by (simp add: base64_index_unat is_ascii_whitespace_def
        word_eq_iff_unsigned [where ?'a = nat] unat_base64_char)
next
  case 5
  then show ?thesis
    by (simp add: base64_index_unat is_ascii_whitespace_def
        word_eq_iff_unsigned [where ?'a = nat] unat_base64_char)
qed

lemma base64_index_char: "n < 64 \<Longrightarrow> base64_index (base64_char n) = Some n"
  by (simp add: base64_char_props)

lemma base64_char_not_pad: "n < 64 \<Longrightarrow> base64_char n \<noteq> 0x3D"
  by (simp add: base64_char_props)

lemma base64_char_not_ws: "n < 64 \<Longrightarrow> \<not> is_ascii_whitespace (base64_char n)"
  by (simp add: base64_char_props)

lemma nibble_join_first:
  "b < 256 \<Longrightarrow> a div 4 * 4 + (a mod 4 * 16 + b div 16) div 16 = (a :: nat)"
  by (simp add: div_mult2_eq [symmetric])

lemma nibble_join_second:
  "b < 256 \<Longrightarrow> c < 256 \<Longrightarrow>
   (a mod 4 * 16 + b div 16) mod 16 * 16 + (b mod 16 * 4 + c div 64) div 4 = (b :: nat)"
  by (simp add: div_mult2_eq [symmetric])

lemma nibble_join_third:
  "c < 256 \<Longrightarrow> (b mod 16 * 4 + c div 64) mod 4 * 64 + c mod 64 = (c :: nat)"
  by (simp add: div_mult2_eq [symmetric])

lemma sextet_second_less: "b < 256 \<Longrightarrow> a mod 4 * 16 + b div 16 < (64 :: nat)"
proof -
  assume "b < 256"
  then have "b div 16 < 16" by simp
  moreover have "a mod 4 < 4" by simp
  ultimately show ?thesis by linarith
qed

lemma sextet_third_less: "c < 256 \<Longrightarrow> b mod 16 * 4 + c div 64 < (64 :: nat)"
proof -
  assume "c < 256"
  then have "c div 64 < 4" by simp
  moreover have "b mod 16 < 16" by simp
  ultimately show ?thesis by linarith
qed

lemma sextets_bound: "n \<in> set (sextets bs) \<Longrightarrow> n < 64"
proof (induction bs arbitrary: n rule: sextets.induct)
  case (1 x y z rest)
  have "unat x div 4 < 64" "unat x mod 4 * 16 + unat y div 16 < 64"
    "unat y mod 16 * 4 + unat z div 64 < 64" "unat z mod 64 < 64"
    using unat_byte_less [of x] unat_byte_less [of y] unat_byte_less [of z]
      sextet_second_less [of "unat y" "unat x"] sextet_third_less [of "unat z" "unat y"]
    by simp_all
  with 1 show ?case by auto
next
  case (2 x y)
  have "unat x div 4 < 64" "unat x mod 4 * 16 + unat y div 16 < 64" "unat y mod 16 * 4 < 64"
    using unat_byte_less [of x] unat_byte_less [of y]
      sextet_second_less [of "unat y" "unat x"] sextet_third_less [of 0 "unat y"]
    by simp_all
  with 2 show ?case by auto
next
  case (3 x)
  have "unat x div 4 < 64" "unat x mod 4 * 16 < 64"
    using unat_byte_less [of x] sextet_second_less [of 0 "unat x"]
    by simp_all
  with 3 show ?case by auto
next
  case 4
  then show ?case by simp
qed

lemma decode_sextets_sextets: "decode_sextets (sextets bs) = bs"
proof (induction bs rule: sextets.induct)
  case (1 x y z rest)
  then show ?case
    using nibble_join_first [of "unat y" "unat x"]
      nibble_join_second [of "unat y" "unat z" "unat x"]
      nibble_join_third [of "unat z" "unat y"]
    by (simp add: unat_byte_less del: of_nat_add of_nat_mult)
next
  case (2 x y)
  show ?case
    using nibble_join_first [of "unat y" "unat x"]
      nibble_join_second [of "unat y" 0 "unat x"]
    by (simp add: unat_byte_less del: of_nat_add of_nat_mult)
next
  case (3 x)
  show ?case
    using nibble_join_first [of 0 "unat x"]
    by (simp del: of_nat_add of_nat_mult)
next
  case 4
  show ?case by simp
qed

lemma length_sextets_mod: "length (sextets bs) mod 4 \<noteq> Suc 0"
proof (induction bs rule: sextets.induct)
  case (1 x y z rest)
  have "length (sextets (x # y # z # rest)) = length (sextets rest) + 4"
    by simp
  then have "length (sextets (x # y # z # rest)) mod 4 = length (sextets rest) mod 4"
    by (simp only: mod_add_self2)
  with 1 show ?case
    by metis
qed simp_all

lemma pad_count_step: "(3 - (n + 3) mod 3) mod 3 = (3 - n mod 3) mod (3 :: nat)"
  by (simp only: mod_add_self2)

lemma length_base64_encode: "length (base64_encode bs) = 4 * ((length bs + 2) div 3)"
proof (induction bs rule: sextets.induct)
  case (1 x y z rest)
  have len: "length (x # y # z # rest) = length rest + 3"
    by simp
  have "length (base64_encode (x # y # z # rest)) = length (base64_encode rest) + 4"
    unfolding base64_encode_def len pad_count_step by simp
  also have "\<dots> = 4 * ((length rest + 2) div 3) + 4"
    by (simp only: 1)
  also have "\<dots> = 4 * ((length rest + 2) div 3 + 1)"
    by simp
  also have "(length rest + 2) div 3 + 1 = (length rest + 2 + 3) div 3"
    by (simp only: div_add_self2)
  also have "length rest + 2 + 3 = length (x # y # z # rest) + 2"
    by simp
  finally show ?case .
qed (simp_all add: base64_encode_def)

lemma pad_count_le: "(3 - n mod 3) mod 3 \<le> (2 :: nat)"
proof -
  have "(3 - n mod 3) mod 3 < 3" by simp
  then show ?thesis by linarith
qed

lemma strip_padding_replicate:
  assumes "k \<le> 2" and "xs = [] \<or> last xs \<noteq> 0x3D"
  shows "strip_padding (xs @ replicate k 0x3D) = xs"
proof -
  from assms(1) consider "k = 0" | "k = 1" | "k = 2"
    by arith
  then show ?thesis
  proof cases
    case 1
    with assms(2) show ?thesis by (auto simp: strip_padding_def)
  next
    case 2
    with assms(2) show ?thesis by (auto simp: strip_padding_def)
  next
    case 3
    then have "replicate k (0x3D :: code_unit) = [0x3D, 0x3D]"
      by (simp add: numeral_2_eq_2)
    with assms(2) show ?thesis
      by (auto simp: strip_padding_def butlast_append)
  qed
qed

lemma those_base64_index:
  "\<forall>n \<in> set ns. n < 64 \<Longrightarrow> those (map base64_index (map base64_char ns)) = Some ns"
  by (induction ns) (simp_all add: base64_index_char)

lemma no_whitespace_encode:
  "filter (\<lambda>c. \<not> is_ascii_whitespace c) (base64_encode bs) = base64_encode bs"
proof -
  have "\<not> is_ascii_whitespace 0x3D"
    by (simp add: is_ascii_whitespace_def)
  then show ?thesis
    by (auto simp: base64_encode_def filter_id_conv base64_char_not_ws sextets_bound)
qed

lemma forgiving_base64_decode_encode: "forgiving_base64_decode (base64_encode bs) = Some bs"
proof -
  let ?body = "map base64_char (sextets bs)"
  have last_body: "?body = [] \<or> last ?body \<noteq> 0x3D"
  proof (cases "sextets bs = []")
    case True
    then show ?thesis by simp
  next
    case False
    then have "last (sextets bs) \<in> set (sextets bs)"
      by simp
    then have "last (sextets bs) < 64"
      by (rule sextets_bound)
    then show ?thesis
      using False by (simp add: last_map base64_char_not_pad)
  qed
  have strip: "strip_padding (base64_encode bs) = ?body"
    unfolding base64_encode_def
    using pad_count_le last_body by (rule strip_padding_replicate)
  have len: "length (base64_encode bs) mod 4 = 0"
    by (simp add: length_base64_encode)
  have idx: "those (map base64_index ?body) = Some (sextets bs)"
    by (rule those_base64_index) (simp add: sextets_bound)
  show ?thesis
    unfolding forgiving_base64_decode_def
    by (simp add: no_whitespace_encode len strip length_sextets_mod idx decode_sextets_sextets
        del: map_map)
qed

lemma charCode_loop_eq:
  "i \<le> length binary \<Longrightarrow> length bs = length binary \<Longrightarrow>
   charCode_loop binary i bs = take i bs @ map ucast (drop i binary)"
proof (induction binary i bs rule: charCode_loop.induct)
  case (1 binary i bs)
  show ?case
  proof (cases "i < length binary")
    case True
    have "charCode_loop binary i bs = charCode_loop binary (i + 1) (bs[i := ucast (binary ! i)])"
      using True by (subst charCode_loop.simps) simp
    also have "\<dots> = take (i + 1) (bs[i := ucast (binary ! i)]) @ map ucast (drop (i + 1) binary)"
      using True "1.prems" by (intro "1.IH") simp_all
    also have "take (i + 1) (bs[i := ucast (binary ! i)]) = take i bs @ [ucast (binary ! i)]"
      using True "1.prems" by (simp add: take_Suc_conv_app_nth)
    finally show ?thesis
      using True by (simp add: Cons_nth_drop_Suc [symmetric])
  next
    case False
    then show ?thesis
      using "1.prems" by (subst charCode_loop.simps) simp
  qed
qed

lemma byte_ucast_ucast: "ucast (ucast (b :: byte) :: code_unit) = b"
  by (simp add: ucast_up_ucast_id is_up)

lemma map_ucast_ucast: "map ucast (map ucast bs :: jsstring) = (bs :: bytes)"
  by (induction bs) (simp_all add: byte_ucast_ucast)

lemma atob_encode: "atob (base64_encode bs) = Inr (map ucast bs)"
  by (simp add: atob_def forgiving_base64_decode_encode)

lemma base64ToUint8Array_encode: "base64ToUint8Array (base64_encode bs) = bs"
proof -
  have "base64ToUint8Array (base64_encode bs) = map ucast (map ucast bs :: jsstring)"
    unfolding base64ToUint8Array_def atob_encode
    by (simp add: charCode_loop_eq del: map_map)
  then show ?thesis
    by (simp only: map_ucast_ucast)
qed

lemma fromCharCode_loop_eq: "fromCharCode_loop array binary = binary @ map ucast array"
  by (induction array arbitrary: binary) simp_all

lemma ucast_byte_le: "\<not> 0xFF < (ucast (b :: byte) :: code_unit)"
proof -
  have "unat b < 2 ^ 16"
    using unat_byte_less [of b] by simp
  then have "unat (ucast b :: code_unit) = unat b"
    by (simp add: unsigned_ucast_eq take_bit_nat_eq_self)
  then show ?thesis
    using unat_byte_less [of b] by (simp add: word_less_nat_alt)
qed

lemma uint8ArrayToBase64_eq: "uint8ArrayToBase64 array = Inr (base64_encode array)"
proof -
  have "fromCharCode_loop array [] = map ucast array"
    by (simp add: fromCharCode_loop_eq)
  moreover have "\<not> (\<exists>c \<in> set (map ucast array :: jsstring). 0xFF < c)"
    by (auto simp: ucast_byte_le)
  ultimately show ?thesis
    unfolding uint8ArrayToBase64_def btoa_def
    by (simp only: if_False map_ucast_ucast)
qed

lemmas base64_eval =
  js_def base64ToUint8Array_def atob_def forgiving_base64_decode_def strip_padding_def
  base64_index_def is_ascii_whitespace_def charCode_loop_eq

text \<open>
  C5. Decoding the base64 encoding of any byte sequence gives the sequence back. The
  encoding is standard base64, padded to a multiple of four characters and without line
  breaks: \<open>48 65 6C 6C 6F\<close> encodes to \<open>"SGVsbG8="\<close>, which decodes to the same bytes.
\<close>

theorem base64_decode_encode:
  "(\<exists>s. uint8ArrayToBase64 b = Inr s \<and> base64ToUint8Array s = b
        \<and> length s = 4 * ((length b + 2) div 3) \<and> filter is_ascii_whitespace s = []) \<and>
   uint8ArrayToBase64 [0x48, 0x65, 0x6C, 0x6C, 0x6F] = Inr (js ''SGVsbG8='') \<and>
   base64ToUint8Array (js ''SGVsbG8='') = [0x48, 0x65, 0x6C, 0x6C, 0x6F]"
proof (intro conjI exI)
  show "uint8ArrayToBase64 b = Inr (base64_encode b)"
    by (rule uint8ArrayToBase64_eq)
  show "base64ToUint8Array (base64_encode b) = b"
    by (rule base64ToUint8Array_encode)
  show "length (base64_encode b) = 4 * ((length b + 2) div 3)"
    by (rule length_base64_encode)
  have "filter (\<lambda>c. \<not> is_ascii_whitespace c) (base64_encode b) = base64_encode b"
    by (rule no_whitespace_encode)
  then show "filter is_ascii_whitespace (base64_encode b) = []"
    by (simp add: filter_id_conv filter_empty_conv)
  show "uint8ArrayToBase64 [0x48, 0x65, 0x6C, 0x6C, 0x6F] = Inr (js ''SGVsbG8='')"
    by (simp add: uint8ArrayToBase64_eq base64_encode_def base64_char_def js_def)
  show "base64ToUint8Array (js ''SGVsbG8='') = [0x48, 0x65, 0x6C, 0x6C, 0x6F]"
    by (simp add: base64_eval)
qed

theorem base64_decode_encode_witness:
  "uint8ArrayToBase64 [0xFF, 0x00] = Inr (js ''/wA='') \<and>
   base64ToUint8Array (js ''/wA='') = [0xFF, 0x00]"
proof -
  have enc: "uint8ArrayToBase64 [0xFF, 0x00] = Inr (js ''/wA='')"
    by (simp add: uint8ArrayToBase64_eq base64_encode_def base64_char_def js_def)
  from base64_decode_encode [of "[0xFF, 0x00]"]
  obtain s where "uint8ArrayToBase64 [0xFF, 0x00] = Inr s" and "base64ToUint8Array s = [0xFF, 0x00]"
    by blast
  with enc have "base64ToUint8Array (js ''/wA='') = [0xFF, 0x00]"
    by simp
  with enc show ?thesis
    by (rule conjI)
qed

lemma base64_index_alphabet:
  "base64_index c \<noteq> None \<longleftrightarrow>
     c \<in> set (js ''ABCDEFGHIJKLMNOPQRSTUVWXYZabcdefghijklmnopqrstuvwxyz0123456789+/'')"
proof
  assume "c \<in> set (js ''ABCDEFGHIJKLMNOPQRSTUVWXYZabcdefghijklmnopqrstuvwxyz0123456789+/'')"
  then show "base64_index c \<noteq> None"
    by (auto simp: js_def base64_index_def)
next
  assume "base64_index c \<noteq> None"
  then consider "65 \<le> unat c" "unat c \<le> 65 + 25" | "97 \<le> unat c" "unat c \<le> 97 + 25"
    | "48 \<le> unat c" "unat c \<le> 48 + 9" | "unat c = 43" | "unat c = 47"
    by (auto simp: base64_index_unat split: if_splits)
  then have "unat c \<in> set (map unat
      (js ''ABCDEFGHIJKLMNOPQRSTUVWXYZabcdefghijklmnopqrstuvwxyz0123456789+/''))"
  proof cases
    case 1
    from nat_range_cases [OF 1] show ?thesis
      by (auto simp: js_def upt_conv_Cons)
  next
    case 2
    from nat_range_cases [OF 2] show ?thesis
      by (auto simp: js_def upt_conv_Cons)
  next
    case 3
    from nat_range_cases [OF 3] show ?thesis
      by (auto simp: js_def upt_conv_Cons)
  next
    case 4
    then show ?thesis by (simp add: js_def)
  next
    case 5
    then show ?thesis by (simp add: js_def)
  qed
  then obtain x
    where "x \<in> set (js ''ABCDEFGHIJKLMNOPQRSTUVWXYZabcdefghijklmnopqrstuvwxyz0123456789+/'')"
      and "unat c = unat x"
    by auto
  then show "c \<in> set (js ''ABCDEFGHIJKLMNOPQRSTUVWXYZabcdefghijklmnopqrstuvwxyz0123456789+/'')"
    by (auto dest: unsigned_word_eqI)
qed

lemma those_map_None: "x \<in> set xs \<Longrightarrow> f x = None \<Longrightarrow> those (map f xs) = None"
  by (induction xs) (auto split: option.splits)

lemma those_map_Some: "\<forall>x \<in> set xs. f x \<noteq> None \<Longrightarrow> \<exists>ys. those (map f xs) = Some ys"
  by (induction xs) auto

lemma in_set_butlast_or_last:
  assumes "c \<in> set d" and "c \<noteq> last d"
  shows "c \<in> set (butlast d)"
proof -
  from assms(1) have "d \<noteq> []"
    by auto
  then have "d = butlast d @ [last d]"
    by simp
  then have "set d = set (butlast d) \<union> {last d}"
    by (metis list.set(1,2) set_append)
  with assms show ?thesis
    by auto
qed

lemma strip_padding_keeps:
  assumes "c \<in> set d" and "c \<noteq> 0x3D"
  shows "c \<in> set (strip_padding d)"
proof (cases "d \<noteq> [] \<and> last d = 0x3D")
  case False
  with assms show ?thesis
    by (auto simp: strip_padding_def)
next
  case True
  with assms(2) have "c \<noteq> last d"
    by simp
  with assms(1) have first: "c \<in> set (butlast d)"
    by (rule in_set_butlast_or_last)
  show ?thesis
  proof (cases "butlast d \<noteq> [] \<and> last (butlast d) = 0x3D")
    case False
    with True first show ?thesis
      by (auto simp: strip_padding_def Let_def)
  next
    case inner: True
    with assms(2) have "c \<noteq> last (butlast d)"
      by simp
    with first have "c \<in> set (butlast (butlast d))"
      by (rule in_set_butlast_or_last)
    with True inner show ?thesis
      by (simp add: strip_padding_def Let_def)
  qed
qed

lemma strip_padding_prefix:
  assumes "c \<in> set (butlast (butlast d))"
  shows "c \<in> set (strip_padding d)"
  using assms
  by (auto simp: strip_padding_def Let_def dest: in_set_butlastD)

lemma forgiving_rejects:
  assumes "c \<in> set (let d = filter (\<lambda>c. \<not> is_ascii_whitespace c) s
                     in if length d mod 4 = 0 then strip_padding d else d)"
    and "base64_index c = None"
  shows "forgiving_base64_decode s = None"
  using assms those_map_None [of c _ base64_index]
  by (simp add: forgiving_base64_decode_def Let_def)

lemma base64ToUint8Array_rejected:
  "forgiving_base64_decode s = None \<Longrightarrow> base64ToUint8Array s = []"
  by (simp add: base64ToUint8Array_def atob_def)

lemma base64_pad_index: "base64_index 0x3D = None"
  by (simp add: base64_index_def)

lemma alphabet_not_whitespace:
  "base64_index c \<noteq> None \<Longrightarrow> \<not> is_ascii_whitespace c"
  by (auto simp: base64_index_def is_ascii_whitespace_def split: if_splits)

lemma atob_accepts:
  assumes chars: "\<forall>c \<in> set s. base64_index c \<noteq> None" and len: "length s mod 4 \<noteq> 1"
  shows "\<exists>binary. atob s = Inr binary"
proof -
  have clean: "filter (\<lambda>c. \<not> is_ascii_whitespace c) s = s"
    using chars by (simp add: filter_id_conv alphabet_not_whitespace)
  have "s = [] \<or> last s \<noteq> 0x3D"
  proof (cases "s = []")
    case False
    then have "last s \<in> set s"
      by simp
    with chars have "base64_index (last s) \<noteq> None"
      by blast
    then show ?thesis
      using base64_pad_index by metis
  qed simp
  then have strip: "strip_padding s = s"
    by (auto simp: strip_padding_def)
  from chars obtain sx where "those (map base64_index s) = Some sx"
    using those_map_Some [of s base64_index] by blast
  then show ?thesis
    using len by (simp add: atob_def forgiving_base64_decode_def clean strip)
qed

text \<open>
  C8. Base64 decoding never fails its caller: whatever \<^verbatim>\<open>atob\<close> throws, the \<^verbatim>\<open>catch\<close> block
  returns the empty byte sequence, which is also the decoding of the empty string. The
  malformed strings are rejected on the input's own terms: a character that is neither
  of the alphabet, nor white space, nor \<^verbatim>\<open>=\<close>; a length, white space apart, that leaves
  remainder one modulo four; a \<^verbatim>\<open>=\<close> before the last two characters, or on a length that
  is not a multiple of four. A string of alphabet characters whose length does not leave
  remainder one is not rejected.
\<close>

theorem base64_decode_malformed:
  "(atob s = Inl e \<longrightarrow> base64ToUint8Array s = []) \<and>
   base64ToUint8Array [] = [] \<and>
   ((\<exists>c \<in> set s.
       c \<notin> set (js ''ABCDEFGHIJKLMNOPQRSTUVWXYZabcdefghijklmnopqrstuvwxyz0123456789+/'') \<and>
       \<not> is_ascii_whitespace c \<and> c \<noteq> 0x3D) \<longrightarrow>
      atob s = Inl InvalidCharacterError \<and> base64ToUint8Array s = []) \<and>
   (length (filter (\<lambda>c. \<not> is_ascii_whitespace c) s) mod 4 = 1 \<longrightarrow>
      atob s = Inl InvalidCharacterError \<and> base64ToUint8Array s = []) \<and>
   (0x3D \<in> set (butlast (butlast (filter (\<lambda>c. \<not> is_ascii_whitespace c) s))) \<longrightarrow>
      atob s = Inl InvalidCharacterError \<and> base64ToUint8Array s = []) \<and>
   (length (filter (\<lambda>c. \<not> is_ascii_whitespace c) s) mod 4 \<noteq> 0 \<and> 0x3D \<in> set s \<longrightarrow>
      atob s = Inl InvalidCharacterError \<and> base64ToUint8Array s = []) \<and>
   ((\<forall>c \<in> set s.
       c \<in> set (js ''ABCDEFGHIJKLMNOPQRSTUVWXYZabcdefghijklmnopqrstuvwxyz0123456789+/'')) \<and>
    length s mod 4 \<noteq> 1 \<longrightarrow> (\<exists>binary. atob s = Inr binary))"
proof -
  let ?d = "filter (\<lambda>c. \<not> is_ascii_whitespace c) s"
  have rejected: "atob s = Inl InvalidCharacterError \<and> base64ToUint8Array s = []"
    if "forgiving_base64_decode s = None"
    using that by (simp add: atob_def base64ToUint8Array_def)
  have catch: "atob s = Inl e \<longrightarrow> base64ToUint8Array s = []"
    by (simp add: base64ToUint8Array_def)
  have empty: "base64ToUint8Array [] = []"
    by (simp add: base64ToUint8Array_def atob_def forgiving_base64_decode_def strip_padding_def
        charCode_loop_eq)
  have bad_char: "atob s = Inl InvalidCharacterError \<and> base64ToUint8Array s = []"
    if "\<exists>c \<in> set s.
       c \<notin> set (js ''ABCDEFGHIJKLMNOPQRSTUVWXYZabcdefghijklmnopqrstuvwxyz0123456789+/'') \<and>
       \<not> is_ascii_whitespace c \<and> c \<noteq> 0x3D"
  proof -
    from that obtain c where c: "c \<in> set s" "base64_index c = None" "\<not> is_ascii_whitespace c"
      "c \<noteq> 0x3D"
      using base64_index_alphabet by blast
    then have "c \<in> set ?d"
      by simp
    with c(4) have "c \<in> set (if length ?d mod 4 = 0 then strip_padding ?d else ?d)"
      by (simp add: strip_padding_keeps)
    then have "forgiving_base64_decode s = None"
      using c(2) by (intro forgiving_rejects [of c]) (simp_all add: Let_def)
    then show ?thesis
      by (rule rejected)
  qed
  have bad_length: "atob s = Inl InvalidCharacterError \<and> base64ToUint8Array s = []"
    if "length ?d mod 4 = 1"
  proof -
    from that have "forgiving_base64_decode s = None"
      by (simp add: forgiving_base64_decode_def Let_def)
    then show ?thesis
      by (rule rejected)
  qed
  have inner_pad: "atob s = Inl InvalidCharacterError \<and> base64ToUint8Array s = []"
    if "0x3D \<in> set (butlast (butlast ?d))"
  proof -
    from that have "0x3D \<in> set (butlast ?d)"
      by (rule in_set_butlastD)
    then have "0x3D \<in> set ?d"
      by (rule in_set_butlastD)
    with that have "0x3D \<in> set (if length ?d mod 4 = 0 then strip_padding ?d else ?d)"
      by (simp add: strip_padding_prefix)
    then have "forgiving_base64_decode s = None"
      by (intro forgiving_rejects [of "0x3D"]) (simp_all add: Let_def base64_pad_index)
    then show ?thesis
      by (rule rejected)
  qed
  have stray_pad: "atob s = Inl InvalidCharacterError \<and> base64ToUint8Array s = []"
    if "length ?d mod 4 \<noteq> 0 \<and> 0x3D \<in> set s"
  proof -
    from that have "0x3D \<in> set ?d"
      by (simp add: is_ascii_whitespace_def)
    with that have "0x3D \<in> set (if length ?d mod 4 = 0 then strip_padding ?d else ?d)"
      by simp
    then have "forgiving_base64_decode s = None"
      by (intro forgiving_rejects [of "0x3D"]) (simp_all add: Let_def base64_pad_index)
    then show ?thesis
      by (rule rejected)
  qed
  have accepted: "\<exists>binary. atob s = Inr binary"
    if "(\<forall>c \<in> set s.
       c \<in> set (js ''ABCDEFGHIJKLMNOPQRSTUVWXYZabcdefghijklmnopqrstuvwxyz0123456789+/'')) \<and>
      length s mod 4 \<noteq> 1"
  proof -
    from that have "\<forall>c \<in> set s. base64_index c \<noteq> None"
      using base64_index_alphabet by blast
    with that show ?thesis
      by (intro atob_accepts) simp_all
  qed
  from catch empty bad_char bad_length inner_pad stray_pad accepted show ?thesis
    by blast
qed

theorem base64_decode_malformed_witness:
  "atob (js ''SG!s'') = Inl InvalidCharacterError \<and> base64ToUint8Array (js ''SG!s'') = [] \<and>
   atob (js ''SGVsb'') = Inl InvalidCharacterError \<and> base64ToUint8Array (js ''SGVsb'') = [] \<and>
   atob (js ''SG=sbG8='') = Inl InvalidCharacterError \<and> base64ToUint8Array (js ''SG=sbG8='') = [] \<and>
   atob (js ''SGVsbG='') = Inl InvalidCharacterError \<and> base64ToUint8Array (js ''SGVsbG='') = [] \<and>
   (\<exists>binary. atob (js ''SGVsbG8'') = Inr binary)"
proof -
  have bad_char: "\<exists>c \<in> set (js ''SG!s'').
       c \<notin> set (js ''ABCDEFGHIJKLMNOPQRSTUVWXYZabcdefghijklmnopqrstuvwxyz0123456789+/'') \<and>
       \<not> is_ascii_whitespace c \<and> c \<noteq> 0x3D"
    by (simp add: js_def is_ascii_whitespace_def)
  have bad_length: "length (filter (\<lambda>c. \<not> is_ascii_whitespace c) (js ''SGVsb'')) mod 4 = 1"
    by (simp add: js_def is_ascii_whitespace_def)
  have inner_pad:
    "0x3D \<in> set (butlast (butlast (filter (\<lambda>c. \<not> is_ascii_whitespace c) (js ''SG=sbG8=''))))"
    by (simp add: js_def is_ascii_whitespace_def)
  have stray_pad: "length (filter (\<lambda>c. \<not> is_ascii_whitespace c) (js ''SGVsbG='')) mod 4 \<noteq> 0
      \<and> 0x3D \<in> set (js ''SGVsbG='')"
    by (simp add: js_def is_ascii_whitespace_def)
  have well_formed: "(\<forall>c \<in> set (js ''SGVsbG8'').
       c \<in> set (js ''ABCDEFGHIJKLMNOPQRSTUVWXYZabcdefghijklmnopqrstuvwxyz0123456789+/'')) \<and>
      length (js ''SGVsbG8'') mod 4 \<noteq> 1"
    by (simp add: js_def)
  from bad_char base64_decode_malformed [of "js ''SG!s''"]
  have r1: "atob (js ''SG!s'') = Inl InvalidCharacterError \<and> base64ToUint8Array (js ''SG!s'') = []"
    by blast
  from bad_length base64_decode_malformed [of "js ''SGVsb''"]
  have r2: "atob (js ''SGVsb'') = Inl InvalidCharacterError \<and> base64ToUint8Array (js ''SGVsb'') = []"
    by blast
  from inner_pad base64_decode_malformed [of "js ''SG=sbG8=''"]
  have r3: "atob (js ''SG=sbG8='') = Inl InvalidCharacterError
      \<and> base64ToUint8Array (js ''SG=sbG8='') = []"
    by blast
  from stray_pad base64_decode_malformed [of "js ''SGVsbG=''"]
  have r4: "atob (js ''SGVsbG='') = Inl InvalidCharacterError
      \<and> base64ToUint8Array (js ''SGVsbG='') = []"
    by blast
  from well_formed base64_decode_malformed [of "js ''SGVsbG8''"]
  have r5: "\<exists>binary. atob (js ''SGVsbG8'') = Inr binary"
    by blast
  from r1 r2 r3 r4 r5 show ?thesis
    by blast
qed

section \<open>Properties of the text codec\<close>

lemma byte_and_mask:
  fixes b :: byte
  shows "unat (b AND 0x3F) = unat b mod 64" "unat (b AND 0x1F) = unat b mod 32"
    "unat (b AND 0xF) = unat b mod 16" "unat (b AND 0x7) = unat b mod 8"
proof -
  have "(0x3F :: byte) = mask 6" "(0x1F :: byte) = mask 5" "(0xF :: byte) = mask 4"
    "(0x7 :: byte) = mask 3"
    by (simp_all add: mask_eq_exp_minus_1)
  then show "unat (b AND 0x3F) = unat b mod 64" "unat (b AND 0x1F) = unat b mod 32"
    "unat (b AND 0xF) = unat b mod 16" "unat (b AND 0x7) = unat b mod 8"
    by (simp_all only: take_bit_eq_mask [symmetric] unsigned_take_bit_eq take_bit_eq_mod)
       (simp_all add: unat_mod_distrib)
qed

lemma shift_or_add:
  fixes x y :: nat
  assumes "y < 64"
  shows "push_bit 6 x OR y = x * 64 + y"
proof -
  have "take_bit 6 y = y"
    using assms by (simp add: take_bit_nat_eq_self)
  then have "push_bit 6 x OR y = push_bit 6 x OR take_bit 6 y"
    by simp
  also have "\<dots> = push_bit 6 x + take_bit 6 y"
    by (rule disjunctive_add [symmetric]) (auto simp: bit_push_bit_iff bit_take_bit_iff)
  finally show ?thesis
    using \<open>take_bit 6 y = y\<close> by (simp add: push_bit_eq_mult)
qed

lemma utf8_handler_continue:
  assumes "n \<noteq> 0" and "lo \<le> b" and "b \<le> hi"
  shows "utf8_handler \<lparr>code_point = x, bytes_seen = k, bytes_needed = n,
            lower_boundary = lo, upper_boundary = hi\<rparr> b =
         (if k + 1 \<noteq> n
          then Some (\<lparr>code_point = x * 64 + unat b mod 64, bytes_seen = k + 1, bytes_needed = n,
                      lower_boundary = 0x80, upper_boundary = 0xBF\<rparr>, None)
          else Some (new_utf8_decoder, Some (x * 64 + unat b mod 64)))"
proof -
  have "push_bit 6 x OR unat (b AND 0x3F) = x * 64 + unat b mod 64"
    by (simp only: byte_and_mask) (rule shift_or_add, simp)
  then show ?thesis
    using assms by (simp add: utf8_handler_def new_utf8_decoder_def Let_def)
qed

lemma utf8_handler_reject:
  assumes "n \<noteq> 0" and "\<not> (lo \<le> b \<and> b \<le> hi)"
  shows "utf8_handler \<lparr>code_point = x, bytes_seen = k, bytes_needed = n,
            lower_boundary = lo, upper_boundary = hi\<rparr> b = None"
  using assms by (simp add: utf8_handler_def)

lemma loop_last:
  "utf8_decode_loop \<lparr>code_point = x, bytes_seen = k, bytes_needed = k + 1,
       lower_boundary = lo, upper_boundary = hi\<rparr> bs =
     (case bs of
        [] \<Rightarrow> None
      | b # rest \<Rightarrow>
          if lo \<le> b \<and> b \<le> hi
          then map_option (Cons (x * 64 + unat b mod 64)) (utf8_decode_loop new_utf8_decoder rest)
          else None)"
proof (cases bs)
  case Nil
  then show ?thesis by (simp add: utf8_decode_loop.simps)
next
  case (Cons b rest)
  show ?thesis
  proof (cases "lo \<le> b \<and> b \<le> hi")
    case True
    then show ?thesis
      unfolding Cons
      by (simp add: utf8_decode_loop.simps utf8_handler_continue split: option.splits)
  next
    case False
    then show ?thesis
      unfolding Cons
      by (simp add: utf8_decode_loop.simps utf8_handler_reject del: de_Morgan_conj)
  qed
qed

lemma loop_middle:
  assumes "k + 1 < n"
  shows "utf8_decode_loop \<lparr>code_point = x, bytes_seen = k, bytes_needed = n,
       lower_boundary = lo, upper_boundary = hi\<rparr> bs =
     (case bs of
        [] \<Rightarrow> None
      | b # rest \<Rightarrow>
          if lo \<le> b \<and> b \<le> hi
          then utf8_decode_loop \<lparr>code_point = x * 64 + unat b mod 64, bytes_seen = k + 1,
                 bytes_needed = n, lower_boundary = 0x80, upper_boundary = 0xBF\<rparr> rest
          else None)"
proof (cases bs)
  case Nil
  then show ?thesis using assms by (simp add: utf8_decode_loop.simps)
next
  case (Cons b rest)
  show ?thesis
  proof (cases "lo \<le> b \<and> b \<le> hi")
    case True
    then show ?thesis
      unfolding Cons using assms
      by (simp add: utf8_decode_loop.simps utf8_handler_continue split: option.splits)
  next
    case False
    then show ?thesis
      unfolding Cons using assms
      by (simp add: utf8_decode_loop.simps utf8_handler_reject del: de_Morgan_conj)
  qed
qed

lemma loop_ascii:
  assumes "b0 \<le> 0x7F"
  shows "utf8_decode_loop new_utf8_decoder (b0 # bs) =
     map_option (Cons (unat b0)) (utf8_decode_loop new_utf8_decoder bs)"
  using assms
  by (simp add: utf8_decode_loop.simps utf8_handler_def new_utf8_decoder_def split: option.splits)

lemma loop_lead2:
  assumes "\<not> b0 \<le> 0x7F" and "0xC2 \<le> b0 \<and> b0 \<le> 0xDF"
  shows "utf8_decode_loop new_utf8_decoder (b0 # bs) =
     utf8_decode_loop \<lparr>code_point = unat b0 mod 32, bytes_seen = 0, bytes_needed = 1,
       lower_boundary = 0x80, upper_boundary = 0xBF\<rparr> bs"
  using assms
  by (simp add: utf8_decode_loop.simps utf8_handler_def new_utf8_decoder_def byte_and_mask split: option.splits)

lemma loop_lead3:
  assumes "\<not> b0 \<le> 0x7F" and "\<not> (0xC2 \<le> b0 \<and> b0 \<le> 0xDF)" and "0xE0 \<le> b0 \<and> b0 \<le> 0xEF"
  shows "utf8_decode_loop new_utf8_decoder (b0 # bs) =
     utf8_decode_loop \<lparr>code_point = unat b0 mod 16, bytes_seen = 0, bytes_needed = 2,
       lower_boundary = (if b0 = 0xE0 then 0xA0 else 0x80),
       upper_boundary = (if b0 = 0xED then 0x9F else 0xBF)\<rparr> bs"
  using assms
  by (simp add: utf8_decode_loop.simps utf8_handler_def new_utf8_decoder_def byte_and_mask split: option.splits
      del: de_Morgan_conj)

lemma loop_lead4:
  assumes "\<not> b0 \<le> 0x7F" and "\<not> (0xC2 \<le> b0 \<and> b0 \<le> 0xDF)"
    and "\<not> (0xE0 \<le> b0 \<and> b0 \<le> 0xEF)" and "0xF0 \<le> b0 \<and> b0 \<le> 0xF4"
  shows "utf8_decode_loop new_utf8_decoder (b0 # bs) =
     utf8_decode_loop \<lparr>code_point = unat b0 mod 8, bytes_seen = 0, bytes_needed = 3,
       lower_boundary = (if b0 = 0xF0 then 0x90 else 0x80),
       upper_boundary = (if b0 = 0xF4 then 0x8F else 0xBF)\<rparr> bs"
  using assms
  by (simp add: utf8_decode_loop.simps utf8_handler_def new_utf8_decoder_def byte_and_mask split: option.splits
      del: de_Morgan_conj)

lemma loop_bad_lead:
  assumes "\<not> b0 \<le> 0x7F" and "\<not> (0xC2 \<le> b0 \<and> b0 \<le> 0xDF)"
    and "\<not> (0xE0 \<le> b0 \<and> b0 \<le> 0xEF)" and "\<not> (0xF0 \<le> b0 \<and> b0 \<le> 0xF4)"
  shows "utf8_decode_loop new_utf8_decoder (b0 # bs) = None"
  using assms
  by (simp add: utf8_decode_loop.simps utf8_handler_def new_utf8_decoder_def del: de_Morgan_conj)

lemma group2:
  fixes x y :: nat
  assumes "y < 64"
  shows "(x * 64 + y) div 64 = x" "(x * 64 + y) mod 64 = y"
  using assms by simp_all

lemma group3:
  fixes x y1 y2 :: nat
  assumes "y1 < 64" "y2 < 64"
  shows "((x * 64 + y1) * 64 + y2) div 4096 = x"
    "((x * 64 + y1) * 64 + y2) div 64 mod 64 = y1"
    "((x * 64 + y1) * 64 + y2) mod 64 = y2"
proof -
  have "((x * 64 + y1) * 64 + y2) div 64 = x * 64 + y1"
    using assms by simp
  moreover have "((x * 64 + y1) * 64 + y2) div 4096 = ((x * 64 + y1) * 64 + y2) div 64 div 64"
    by (simp add: div_mult2_eq [symmetric])
  ultimately show "((x * 64 + y1) * 64 + y2) div 4096 = x"
    "((x * 64 + y1) * 64 + y2) div 64 mod 64 = y1"
    using assms by simp_all
  show "((x * 64 + y1) * 64 + y2) mod 64 = y2"
    using assms by (simp only: mod_mult_self3 mod_less)
qed

lemma group4:
  fixes x y1 y2 y3 :: nat
  assumes "y1 < 64" "y2 < 64" "y3 < 64"
  shows "(((x * 64 + y1) * 64 + y2) * 64 + y3) div 262144 = x"
    "(((x * 64 + y1) * 64 + y2) * 64 + y3) div 4096 mod 64 = y1"
    "(((x * 64 + y1) * 64 + y2) * 64 + y3) div 64 mod 64 = y2"
    "(((x * 64 + y1) * 64 + y2) * 64 + y3) mod 64 = y3"
proof -
  let ?c = "((x * 64 + y1) * 64 + y2) * 64 + y3"
  have d1: "?c div 64 = (x * 64 + y1) * 64 + y2"
    using assms by simp
  have d2: "?c div 4096 = ?c div 64 div 64"
    by (simp add: div_mult2_eq [symmetric])
  have d3: "?c div 262144 = ?c div 64 div 64 div 64"
    by (simp add: div_mult2_eq [symmetric])
  have e2: "((x * 64 + y1) * 64 + y2) div 64 = x * 64 + y1"
    using assms by simp
  show "?c div 262144 = x"
    unfolding d3 d1 e2 using assms by simp
  show "?c div 4096 mod 64 = y1"
    unfolding d2 d1 e2 using assms by simp
  show "?c div 64 mod 64 = y2"
    unfolding d1 using assms by (simp only: mod_mult_self3 mod_less)
  show "?c mod 64 = y3"
    using assms by (simp only: mod_mult_self3 mod_less)
qed

lemma range2:
  fixes x y :: nat
  assumes "2 \<le> x" "x < 32" "y < 64"
  shows "0x80 \<le> x * 64 + y" "x * 64 + y < 0x800"
  using assms by simp_all

lemma range3:
  fixes x y1 y2 :: nat
  assumes "x < 16" "y1 < 64" "y2 < 64" "x = 0 \<longrightarrow> 32 \<le> y1" "x = 13 \<longrightarrow> y1 < 32"
  shows "0x800 \<le> (x * 64 + y1) * 64 + y2" "(x * 64 + y1) * 64 + y2 < 0x10000"
    "(x * 64 + y1) * 64 + y2 < 0xD800 \<or> 0xE000 \<le> (x * 64 + y1) * 64 + y2"
proof -
  show "0x800 \<le> (x * 64 + y1) * 64 + y2"
    using assms(4) by (cases "x = 0") simp_all
  show "(x * 64 + y1) * 64 + y2 < 0x10000"
    using assms(1-3) by simp
  consider "x \<le> 12" | "x = 13" | "14 \<le> x"
    by linarith
  then show "(x * 64 + y1) * 64 + y2 < 0xD800 \<or> 0xE000 \<le> (x * 64 + y1) * 64 + y2"
  proof cases
    case 1
    with assms(2,3) show ?thesis by simp
  next
    case 2
    with assms(3,5) show ?thesis by simp
  next
    case 3
    then show ?thesis by simp
  qed
qed

lemma range4:
  fixes x y1 y2 y3 :: nat
  assumes "x \<le> 4" "y1 < 64" "y2 < 64" "y3 < 64" "x = 0 \<longrightarrow> 16 \<le> y1" "x = 4 \<longrightarrow> y1 < 16"
  shows "0x10000 \<le> ((x * 64 + y1) * 64 + y2) * 64 + y3"
    "((x * 64 + y1) * 64 + y2) * 64 + y3 \<le> 0x10FFFF"
proof -
  show "0x10000 \<le> ((x * 64 + y1) * 64 + y2) * 64 + y3"
    using assms(5) by (cases "x = 0") simp_all
  show "((x * 64 + y1) * 64 + y2) * 64 + y3 \<le> 0x10FFFF"
  proof (cases "x = 4")
    case True
    with assms(2-4,6) show ?thesis by simp
  next
    case False
    with assms(1) have "x \<le> 3" by simp
    with assms(2-4) show ?thesis by simp
  qed
qed

lemma byte_offset:
  fixes b :: byte
  assumes "lo \<le> b" and "b \<le> hi"
  shows "unat lo \<le> unat b" and "unat b \<le> unat hi"
  using assms by (simp_all add: word_le_nat_alt)

lemma mod_offset:
  fixes u :: nat
  assumes "u = k * m + r" and "r < m"
  shows "u mod m = r"
  using assms by simp

lemma continuation_parts:
  fixes b :: byte
  assumes "0x80 \<le> b \<and> b \<le> 0xBF"
  obtains y where "unat b = 128 + y" and "y < 64" and "unat b mod 64 = y"
proof -
  from assms have "128 \<le> unat b" "unat b \<le> 191"
    using byte_offset [of "0x80" b "0xBF"] by simp_all
  then have "unat b = 128 + (unat b - 128)" "unat b - 128 < 64"
    by linarith+
  moreover from this have "unat b mod 64 = unat b - 128"
    by (intro mod_offset [where k = 2]) simp_all
  ultimately show thesis
    by (rule that)
qed

lemma sequence1:
  assumes "b0 \<le> 0x7F"
  shows "scalar_value (unat b0)" and "utf8_encode_code_point (unat b0) = [b0]"
proof -
  from assms have "unat b0 \<le> 127"
    by (simp add: word_le_nat_alt)
  then show "scalar_value (unat b0)" and "utf8_encode_code_point (unat b0) = [b0]"
    by (simp_all add: scalar_value_def utf8_encode_code_point_def)
qed

lemma sequence2:
  assumes lead: "0xC2 \<le> b0 \<and> b0 \<le> 0xDF" and c1: "0x80 \<le> b1 \<and> b1 \<le> 0xBF"
  defines "cp \<equiv> unat b0 mod 32 * 64 + unat b1 mod 64"
  shows "scalar_value cp" and "utf8_encode_code_point cp = [b0, b1]"
proof -
  from lead have "194 \<le> unat b0" "unat b0 \<le> 223"
    using byte_offset [of "0xC2" b0 "0xDF"] by simp_all
  then have x: "unat b0 = 192 + (unat b0 - 192)" "2 \<le> unat b0 - 192" "unat b0 - 192 < 32"
    by linarith+
  have m0: "unat b0 mod 32 = unat b0 - 192"
    using x(1,3) by (intro mod_offset [where k = 6]) simp_all
  from c1 obtain y where y: "unat b1 = 128 + y" "y < 64" "unat b1 mod 64 = y"
    by (rule continuation_parts)
  have cp: "cp = (unat b0 - 192) * 64 + y"
    by (simp only: cp_def m0 y(3))
  have lo: "\<not> cp < 0x80" and hi: "cp < 0x800"
    unfolding cp using range2 [OF x(2,3) y(2)] by simp_all
  have d: "cp div 64 + 0xC0 = unat b0" and m: "0x80 + cp mod 64 = unat b1"
    unfolding cp using group2 [OF y(2), of "unat b0 - 192"] x(1) y(1) by simp_all
  show "scalar_value cp"
    using hi by (simp add: scalar_value_def)
  show "utf8_encode_code_point cp = [b0, b1]"
    unfolding utf8_encode_code_point_def
    by (simp only: lo hi d m if_False if_True) simp
qed

lemma second_byte_bounds:
  fixes b0 b1 :: byte
  assumes "(if b0 = p then lo else 0x80) \<le> b1 \<and> b1 \<le> (if b0 = q then hi else 0xBF)"
    and "0x80 \<le> lo" and "hi \<le> 0xBF"
  shows "0x80 \<le> b1 \<and> b1 \<le> 0xBF"
    and "unat b0 = unat p \<longrightarrow> unat lo \<le> unat b1"
    and "unat b0 = unat q \<longrightarrow> unat b1 \<le> unat hi"
  using assms
  by (auto simp: word_le_nat_alt word_eq_iff_unsigned [where ?'a = nat] split: if_splits)

lemma sequence3:
  assumes lead: "0xE0 \<le> b0 \<and> b0 \<le> 0xEF"
    and c1: "(if b0 = 0xE0 then 0xA0 else 0x80) \<le> b1 \<and> b1 \<le> (if b0 = 0xED then 0x9F else 0xBF)"
    and c2: "0x80 \<le> b2 \<and> b2 \<le> 0xBF"
  defines "cp \<equiv> (unat b0 mod 16 * 64 + unat b1 mod 64) * 64 + unat b2 mod 64"
  shows "scalar_value cp" and "utf8_encode_code_point cp = [b0, b1, b2]"
proof -
  from lead have ge: "224 \<le> unat b0" "unat b0 \<le> 239"
    using byte_offset [of "0xE0" b0 "0xEF"] by simp_all
  then have x: "unat b0 = 224 + (unat b0 - 224)" "unat b0 - 224 < 16"
    by linarith+
  have m0: "unat b0 mod 16 = unat b0 - 224"
    using x by (intro mod_offset [where k = 14]) simp_all
  have b1: "0x80 \<le> b1 \<and> b1 \<le> 0xBF"
    and first: "unat b0 = 224 \<longrightarrow> 160 \<le> unat b1"
    and last: "unat b0 = 237 \<longrightarrow> unat b1 \<le> 159"
    using second_byte_bounds [OF c1] by simp_all
  from b1 obtain y1 where y1: "unat b1 = 128 + y1" "y1 < 64" "unat b1 mod 64 = y1"
    by (rule continuation_parts)
  from c2 obtain y2 where y2: "unat b2 = 128 + y2" "y2 < 64" "unat b2 mod 64 = y2"
    by (rule continuation_parts)
  have cp: "cp = ((unat b0 - 224) * 64 + y1) * 64 + y2"
    by (simp only: cp_def m0 y1(3) y2(3))
  have no_overlong: "unat b0 - 224 = 0 \<longrightarrow> 32 \<le> y1"
    using first ge(1) y1(1) by auto
  have no_surrogate: "unat b0 - 224 = 13 \<longrightarrow> y1 < 32"
    using last ge(1) y1(1) by auto
  note r = range3 [OF x(2) y1(2) y2(2) no_overlong no_surrogate, folded cp]
  note g = group3 [OF y1(2) y2(2), of "unat b0 - 224", folded cp]
  have lo: "\<not> cp < 0x80" "\<not> cp < 0x800" and hi: "cp < 0x10000"
    using r(1,2) by simp_all
  have d: "cp div 4096 + 0xE0 = unat b0" "0x80 + cp div 64 mod 64 = unat b1"
    "0x80 + cp mod 64 = unat b2"
    using g x(1) y1(1) y2(1) by simp_all
  show "scalar_value cp"
    using r(2,3) by (auto simp: scalar_value_def)
  show "utf8_encode_code_point cp = [b0, b1, b2]"
    unfolding utf8_encode_code_point_def
    by (simp only: lo hi d if_False if_True) simp
qed

lemma sequence4:
  assumes lead: "0xF0 \<le> b0 \<and> b0 \<le> 0xF4"
    and c1: "(if b0 = 0xF0 then 0x90 else 0x80) \<le> b1 \<and> b1 \<le> (if b0 = 0xF4 then 0x8F else 0xBF)"
    and c2: "0x80 \<le> b2 \<and> b2 \<le> 0xBF"
    and c3: "0x80 \<le> b3 \<and> b3 \<le> 0xBF"
  defines "cp \<equiv> ((unat b0 mod 8 * 64 + unat b1 mod 64) * 64 + unat b2 mod 64) * 64 + unat b3 mod 64"
  shows "scalar_value cp" and "utf8_encode_code_point cp = [b0, b1, b2, b3]"
proof -
  from lead have ge: "240 \<le> unat b0" "unat b0 \<le> 244"
    using byte_offset [of "0xF0" b0 "0xF4"] by simp_all
  then have x: "unat b0 = 240 + (unat b0 - 240)" "unat b0 - 240 \<le> 4"
    by linarith+
  have m0: "unat b0 mod 8 = unat b0 - 240"
    using x by (intro mod_offset [where k = 30]) simp_all
  have b1: "0x80 \<le> b1 \<and> b1 \<le> 0xBF"
    and first: "unat b0 = 240 \<longrightarrow> 144 \<le> unat b1"
    and last: "unat b0 = 244 \<longrightarrow> unat b1 \<le> 143"
    using second_byte_bounds [OF c1] by simp_all
  from b1 obtain y1 where y1: "unat b1 = 128 + y1" "y1 < 64" "unat b1 mod 64 = y1"
    by (rule continuation_parts)
  from c2 obtain y2 where y2: "unat b2 = 128 + y2" "y2 < 64" "unat b2 mod 64 = y2"
    by (rule continuation_parts)
  from c3 obtain y3 where y3: "unat b3 = 128 + y3" "y3 < 64" "unat b3 mod 64 = y3"
    by (rule continuation_parts)
  have cp: "cp = (((unat b0 - 240) * 64 + y1) * 64 + y2) * 64 + y3"
    by (simp only: cp_def m0 y1(3) y2(3) y3(3))
  have no_overlong: "unat b0 - 240 = 0 \<longrightarrow> 16 \<le> y1"
    using first ge(1) y1(1) by auto
  have in_range: "unat b0 - 240 = 4 \<longrightarrow> y1 < 16"
    using last ge(1) y1(1) by auto
  note r = range4 [OF x(2) y1(2) y2(2) y3(2) no_overlong in_range, folded cp]
  note g = group4 [OF y1(2) y2(2) y3(2), of "unat b0 - 240", folded cp]
  have lo: "\<not> cp < 0x80" "\<not> cp < 0x800" "\<not> cp < 0x10000"
    using r(1) by simp_all
  have d: "cp div 262144 + 0xF0 = unat b0" "0x80 + cp div 4096 mod 64 = unat b1"
    "0x80 + cp div 64 mod 64 = unat b2" "0x80 + cp mod 64 = unat b3"
    using g x(1) y1(1) y2(1) y3(1) by simp_all
  show "scalar_value cp"
    using r by (simp add: scalar_value_def)
  show "utf8_encode_code_point cp = [b0, b1, b2, b3]"
    unfolding utf8_encode_code_point_def
    by (simp only: lo d if_False) simp
qed

lemma second3_iff:
  fixes b0 b1 :: byte
  assumes "0xE0 \<le> b0 \<and> b0 \<le> 0xEF"
  shows "(b0 = 0xE0 \<and> 0xA0 \<le> b1 \<and> b1 \<le> 0xBF) \<or>
         (0xE1 \<le> b0 \<and> b0 \<le> 0xEC \<and> is_continuation b1) \<or>
         (b0 = 0xED \<and> 0x80 \<le> b1 \<and> b1 \<le> 0x9F) \<or>
         (0xEE \<le> b0 \<and> b0 \<le> 0xEF \<and> is_continuation b1) \<longleftrightarrow>
         (if b0 = 0xE0 then 0xA0 else 0x80) \<le> b1 \<and> b1 \<le> (if b0 = 0xED then 0x9F else 0xBF)"
  using assms unfolding is_continuation_def
  by (simp add: word_le_nat_alt word_eq_iff_unsigned [where ?'a = nat]) linarith

lemma second4_iff:
  fixes b0 b1 :: byte
  assumes "0xF0 \<le> b0 \<and> b0 \<le> 0xF4"
  shows "(b0 = 0xF0 \<and> 0x90 \<le> b1 \<and> b1 \<le> 0xBF) \<or>
         (0xF1 \<le> b0 \<and> b0 \<le> 0xF3 \<and> is_continuation b1) \<or>
         (b0 = 0xF4 \<and> 0x80 \<le> b1 \<and> b1 \<le> 0x8F) \<longleftrightarrow>
         (if b0 = 0xF0 then 0x90 else 0x80) \<le> b1 \<and> b1 \<le> (if b0 = 0xF4 then 0x8F else 0xBF)"
  using assms unfolding is_continuation_def
  by (simp add: word_le_nat_alt word_eq_iff_unsigned [where ?'a = nat])

lemma agrees_Nil: "decoder_agrees []"
  by (simp add: decoder_agrees_def new_utf8_decoder_def utf8_decode_loop.simps)

lemma agrees_ascii:
  assumes "b0 \<le> 0x7F" and "decoder_agrees bs"
  shows "decoder_agrees (b0 # bs)"
  using assms sequence1 [OF assms(1)]
  by (simp add: decoder_agrees_def loop_ascii split: option.splits)

lemma agrees_bad_lead:
  assumes "\<not> b0 \<le> 0x7F" and "\<not> (0xC2 \<le> b0 \<and> b0 \<le> 0xDF)"
    and "\<not> (0xE0 \<le> b0 \<and> b0 \<le> 0xEF)" and "\<not> (0xF0 \<le> b0 \<and> b0 \<le> 0xF4)"
  shows "decoder_agrees (b0 # bs)"
  using assms
  by (simp add: decoder_agrees_def loop_bad_lead del: de_Morgan_conj)

lemma agrees_lead2:
  assumes ascii: "\<not> b0 \<le> 0x7F" and lead: "0xC2 \<le> b0 \<and> b0 \<le> 0xDF"
    and shorter: "\<And>b1 rest. bs = b1 # rest \<Longrightarrow> decoder_agrees rest"
  shows "decoder_agrees (b0 # bs)"
proof (cases bs)
  case Nil
  then show ?thesis
    using ascii lead
    by (simp add: decoder_agrees_def loop_lead2 loop_last [where k = 0, simplified])
next
  case (Cons b1 rest)
  show ?thesis
  proof (cases "0x80 \<le> b1 \<and> b1 \<le> 0xBF")
    case True
    from shorter [OF Cons] sequence2 [OF lead True] show ?thesis
      unfolding Cons using ascii lead True
      by (simp add: decoder_agrees_def loop_lead2 loop_last [where k = 0, simplified]
          is_continuation_def split: option.splits)
  next
    case False
    then show ?thesis
      unfolding Cons using ascii lead
      by (simp add: decoder_agrees_def loop_lead2 loop_last [where k = 0, simplified]
          is_continuation_def del: de_Morgan_conj)
  qed
qed

lemma loop_two_more:
  "utf8_decode_loop \<lparr>code_point = x, bytes_seen = 0, bytes_needed = 2,
       lower_boundary = lo, upper_boundary = hi\<rparr> bs =
     (case bs of
        b1 # b2 # rest \<Rightarrow>
          if (lo \<le> b1 \<and> b1 \<le> hi) \<and> (0x80 \<le> b2 \<and> b2 \<le> 0xBF)
          then map_option (Cons ((x * 64 + unat b1 mod 64) * 64 + unat b2 mod 64))
                 (utf8_decode_loop new_utf8_decoder rest)
          else None
      | _ \<Rightarrow> None)"
proof -
  have first: "\<And>x lo hi bs. utf8_decode_loop \<lparr>code_point = x, bytes_seen = 0, bytes_needed = 2,
       lower_boundary = lo, upper_boundary = hi\<rparr> bs =
     (case bs of
        [] \<Rightarrow> None
      | b # rest \<Rightarrow>
          if lo \<le> b \<and> b \<le> hi
          then utf8_decode_loop \<lparr>code_point = x * 64 + unat b mod 64, bytes_seen = 0 + 1,
                 bytes_needed = 2, lower_boundary = 0x80, upper_boundary = 0xBF\<rparr> rest
          else None)"
    by (rule loop_middle) simp
  have second: "\<And>x lo hi bs. utf8_decode_loop \<lparr>code_point = x, bytes_seen = 0 + 1,
       bytes_needed = 2, lower_boundary = lo, upper_boundary = hi\<rparr> bs =
     (case bs of
        [] \<Rightarrow> None
      | b # rest \<Rightarrow>
          if lo \<le> b \<and> b \<le> hi
          then map_option (Cons (x * 64 + unat b mod 64)) (utf8_decode_loop new_utf8_decoder rest)
          else None)"
    using loop_last [where k = "0 + 1"] by (simp only: one_add_one add_0)
  show ?thesis
    unfolding first second by (auto split: list.splits)
qed

lemma loop_three_more:
  "utf8_decode_loop \<lparr>code_point = x, bytes_seen = 0, bytes_needed = 3,
       lower_boundary = lo, upper_boundary = hi\<rparr> bs =
     (case bs of
        b1 # b2 # b3 # rest \<Rightarrow>
          if (lo \<le> b1 \<and> b1 \<le> hi) \<and> (0x80 \<le> b2 \<and> b2 \<le> 0xBF) \<and> (0x80 \<le> b3 \<and> b3 \<le> 0xBF)
          then map_option
                 (Cons (((x * 64 + unat b1 mod 64) * 64 + unat b2 mod 64) * 64 + unat b3 mod 64))
                 (utf8_decode_loop new_utf8_decoder rest)
          else None
      | _ \<Rightarrow> None)"
proof -
  have first: "\<And>x lo hi bs. utf8_decode_loop \<lparr>code_point = x, bytes_seen = 0, bytes_needed = 3,
       lower_boundary = lo, upper_boundary = hi\<rparr> bs =
     (case bs of
        [] \<Rightarrow> None
      | b # rest \<Rightarrow>
          if lo \<le> b \<and> b \<le> hi
          then utf8_decode_loop \<lparr>code_point = x * 64 + unat b mod 64, bytes_seen = 0 + 1,
                 bytes_needed = 3, lower_boundary = 0x80, upper_boundary = 0xBF\<rparr> rest
          else None)"
    by (rule loop_middle) simp
  have second: "\<And>x lo hi bs. utf8_decode_loop \<lparr>code_point = x, bytes_seen = 0 + 1,
       bytes_needed = 3, lower_boundary = lo, upper_boundary = hi\<rparr> bs =
     (case bs of
        [] \<Rightarrow> None
      | b # rest \<Rightarrow>
          if lo \<le> b \<and> b \<le> hi
          then utf8_decode_loop \<lparr>code_point = x * 64 + unat b mod 64, bytes_seen = 0 + 1 + 1,
                 bytes_needed = 3, lower_boundary = 0x80, upper_boundary = 0xBF\<rparr> rest
          else None)"
    by (rule loop_middle) simp
  have third: "\<And>x lo hi bs. utf8_decode_loop \<lparr>code_point = x, bytes_seen = 0 + 1 + 1,
       bytes_needed = 3, lower_boundary = lo, upper_boundary = hi\<rparr> bs =
     (case bs of
        [] \<Rightarrow> None
      | b # rest \<Rightarrow>
          if lo \<le> b \<and> b \<le> hi
          then map_option (Cons (x * 64 + unat b mod 64)) (utf8_decode_loop new_utf8_decoder rest)
          else None)"
  proof -
    have "(0 :: nat) + 1 + 1 + 1 = 3" by simp
    then show "\<And>x lo hi bs. utf8_decode_loop \<lparr>code_point = x, bytes_seen = 0 + 1 + 1,
       bytes_needed = 3, lower_boundary = lo, upper_boundary = hi\<rparr> bs =
     (case bs of
        [] \<Rightarrow> None
      | b # rest \<Rightarrow>
          if lo \<le> b \<and> b \<le> hi
          then map_option (Cons (x * 64 + unat b mod 64)) (utf8_decode_loop new_utf8_decoder rest)
          else None)"
      using loop_last [where k = "0 + 1 + 1"] by (simp only:)
  qed
  show ?thesis
    unfolding first second third by (auto split: list.splits)
qed

lemma list_shape2:
  obtains "bs = []" | b1 where "bs = [b1]" | b1 b2 rest where "bs = b1 # b2 # rest"
  by (cases bs; cases "tl bs") auto

lemma list_shape3:
  obtains "bs = []" | b1 where "bs = [b1]" | b1 b2 where "bs = [b1, b2]"
    | b1 b2 b3 rest where "bs = b1 # b2 # b3 # rest"
  by (cases bs; cases "tl bs"; cases "tl (tl bs)") auto

lemma agrees_lead3:
  assumes ascii: "\<not> b0 \<le> 0x7F" and lead2: "\<not> (0xC2 \<le> b0 \<and> b0 \<le> 0xDF)"
    and lead: "0xE0 \<le> b0 \<and> b0 \<le> 0xEF"
    and shorter: "\<And>b1 b2 rest. bs = b1 # b2 # rest \<Longrightarrow> decoder_agrees rest"
  shows "decoder_agrees (b0 # bs)"
proof -
  let ?lo = "if b0 = 0xE0 then 0xA0 else (0x80 :: byte)"
  let ?hi = "if b0 = 0xED then 0x9F else (0xBF :: byte)"
  have dec: "utf8_decode_loop new_utf8_decoder (b0 # bs) =
     (case bs of
        b1 # b2 # rest \<Rightarrow>
          if (?lo \<le> b1 \<and> b1 \<le> ?hi) \<and> (0x80 \<le> b2 \<and> b2 \<le> 0xBF)
          then map_option (Cons ((unat b0 mod 16 * 64 + unat b1 mod 64) * 64 + unat b2 mod 64))
                 (utf8_decode_loop new_utf8_decoder rest)
          else None
      | _ \<Rightarrow> None)"
    by (simp only: loop_lead3 [OF ascii lead2 lead] loop_two_more)
  have val: "valid_utf8 (b0 # bs) =
     (case bs of
        b1 # b2 # rest \<Rightarrow>
          (?lo \<le> b1 \<and> b1 \<le> ?hi) \<and> (0x80 \<le> b2 \<and> b2 \<le> 0xBF) \<and> valid_utf8 rest
      | _ \<Rightarrow> False)"
    by (subst valid_utf8.simps, simp only: second3_iff [OF lead])
       (simp only: ascii lead2 lead if_False if_True simp_thms is_continuation_def conj_assoc)
  show ?thesis
  proof (cases bs rule: list_shape2)
    case 1
    show ?thesis
      unfolding decoder_agrees_def dec val unfolding 1 by simp
  next
    case (2 b1)
    show ?thesis
      unfolding decoder_agrees_def dec val unfolding 2 by simp
  next
    case (3 b1 b2 rest)
    show ?thesis
    proof (cases "(?lo \<le> b1 \<and> b1 \<le> ?hi) \<and> (0x80 \<le> b2 \<and> b2 \<le> 0xBF)")
      case True
      then have c1: "?lo \<le> b1 \<and> b1 \<le> ?hi" and c2: "0x80 \<le> b2 \<and> b2 \<le> 0xBF"
        by simp_all
      from shorter [OF 3] sequence3 [OF lead c1 c2] show ?thesis
        unfolding decoder_agrees_def dec val unfolding 3
        by (simp only: list.case True if_True) (simp split: option.splits)
    next
      case False
      then show ?thesis
        unfolding decoder_agrees_def dec val unfolding 3
        by (simp only: list.case False if_False option.case) (use False in blast)
    qed
  qed
qed

lemma agrees_lead4:
  assumes ascii: "\<not> b0 \<le> 0x7F" and lead2: "\<not> (0xC2 \<le> b0 \<and> b0 \<le> 0xDF)"
    and lead3: "\<not> (0xE0 \<le> b0 \<and> b0 \<le> 0xEF)" and lead: "0xF0 \<le> b0 \<and> b0 \<le> 0xF4"
    and shorter: "\<And>b1 b2 b3 rest. bs = b1 # b2 # b3 # rest \<Longrightarrow> decoder_agrees rest"
  shows "decoder_agrees (b0 # bs)"
proof -
  let ?lo = "if b0 = 0xF0 then 0x90 else (0x80 :: byte)"
  let ?hi = "if b0 = 0xF4 then 0x8F else (0xBF :: byte)"
  let ?ok = "\<lambda>b1 b2 b3. (?lo \<le> b1 \<and> b1 \<le> ?hi) \<and> (0x80 \<le> b2 \<and> b2 \<le> 0xBF)
      \<and> (0x80 \<le> b3 \<and> b3 \<le> 0xBF)"
  have dec: "utf8_decode_loop new_utf8_decoder (b0 # bs) =
     (case bs of
        b1 # b2 # b3 # rest \<Rightarrow>
          if ?ok b1 b2 b3
          then map_option
                 (Cons (((unat b0 mod 8 * 64 + unat b1 mod 64) * 64 + unat b2 mod 64) * 64
                    + unat b3 mod 64))
                 (utf8_decode_loop new_utf8_decoder rest)
          else None
      | _ \<Rightarrow> None)"
    by (simp only: loop_lead4 [OF ascii lead2 lead3 lead] loop_three_more)
  have val: "valid_utf8 (b0 # bs) =
     (case bs of
        b1 # b2 # b3 # rest \<Rightarrow>
          (?lo \<le> b1 \<and> b1 \<le> ?hi) \<and> (0x80 \<le> b2 \<and> b2 \<le> 0xBF) \<and> (0x80 \<le> b3 \<and> b3 \<le> 0xBF)
          \<and> valid_utf8 rest
      | _ \<Rightarrow> False)"
    by (subst valid_utf8.simps, simp only: second4_iff [OF lead])
       (simp only: ascii lead2 lead3 lead if_False if_True simp_thms is_continuation_def
          conj_assoc)
  show ?thesis
  proof (cases bs rule: list_shape3)
    case 1
    show ?thesis
      unfolding decoder_agrees_def dec val unfolding 1 by simp
  next
    case (2 b1)
    show ?thesis
      unfolding decoder_agrees_def dec val unfolding 2 by simp
  next
    case (3 b1 b2)
    show ?thesis
      unfolding decoder_agrees_def dec val unfolding 3 by simp
  next
    case (4 b1 b2 b3 rest)
    show ?thesis
    proof (cases "?ok b1 b2 b3")
      case True
      then have c1: "?lo \<le> b1 \<and> b1 \<le> ?hi" and c2: "0x80 \<le> b2 \<and> b2 \<le> 0xBF"
        and c3: "0x80 \<le> b3 \<and> b3 \<le> 0xBF"
        by simp_all
      from shorter [OF 4] sequence4 [OF lead c1 c2 c3] show ?thesis
        unfolding decoder_agrees_def dec val unfolding 4
        by (simp only: list.case True if_True) (simp split: option.splits)
    next
      case False
      then show ?thesis
        unfolding decoder_agrees_def dec val unfolding 4
        by (simp only: list.case False if_False option.case) (use False in blast)
    qed
  qed
qed

lemma decoder_agrees_all: "decoder_agrees b"
proof (induction b rule: length_induct)
  case (1 b)
  then have IH: "decoder_agrees r" if "length r < length b" for r
    using that by blast
  show ?case
  proof (cases b)
    case Nil
    then show ?thesis
      by (simp add: agrees_Nil)
  next
    case (Cons b0 bs)
    consider (ascii) "b0 \<le> 0x7F"
      | (two) "\<not> b0 \<le> 0x7F" "0xC2 \<le> b0 \<and> b0 \<le> 0xDF"
      | (three) "\<not> b0 \<le> 0x7F" "\<not> (0xC2 \<le> b0 \<and> b0 \<le> 0xDF)" "0xE0 \<le> b0 \<and> b0 \<le> 0xEF"
      | (four) "\<not> b0 \<le> 0x7F" "\<not> (0xC2 \<le> b0 \<and> b0 \<le> 0xDF)" "\<not> (0xE0 \<le> b0 \<and> b0 \<le> 0xEF)"
          "0xF0 \<le> b0 \<and> b0 \<le> 0xF4"
      | (bad) "\<not> b0 \<le> 0x7F" "\<not> (0xC2 \<le> b0 \<and> b0 \<le> 0xDF)" "\<not> (0xE0 \<le> b0 \<and> b0 \<le> 0xEF)"
          "\<not> (0xF0 \<le> b0 \<and> b0 \<le> 0xF4)"
      by blast
    then show ?thesis
    proof cases
      case ascii
      have "decoder_agrees bs"
        by (rule IH) (simp add: Cons)
      with ascii show ?thesis
        unfolding Cons by (rule agrees_ascii)
    next
      case two
      have "decoder_agrees rest" if "bs = b1 # rest" for b1 rest
        by (rule IH) (simp add: Cons that)
      with two show ?thesis
        unfolding Cons by (rule agrees_lead2)
    next
      case three
      have "decoder_agrees rest" if "bs = b1 # b2 # rest" for b1 b2 rest
        by (rule IH) (simp add: Cons that)
      with three show ?thesis
        unfolding Cons by (rule agrees_lead3)
    next
      case four
      have "decoder_agrees rest" if "bs = b1 # b2 # b3 # rest" for b1 b2 b3 rest
        by (rule IH) (simp add: Cons that)
      with four show ?thesis
        unfolding Cons by (rule agrees_lead4)
    next
      case bad
      then show ?thesis
        unfolding Cons by (rule agrees_bad_lead)
    qed
  qed
qed

lemma decode_valid:
  assumes "valid_utf8 b"
  obtains cps where "utf8_decode_loop new_utf8_decoder b = Some cps"
    and "list_all scalar_value cps" and "concat (map utf8_encode_code_point cps) = b"
  using assms decoder_agrees_all [of b]
  by (auto simp: decoder_agrees_def split: option.splits)

lemma decode_invalid:
  assumes "\<not> valid_utf8 b"
  shows "utf8_decode_loop new_utf8_decoder b = None"
  using assms decoder_agrees_all [of b]
  by (auto simp: decoder_agrees_def split: option.splits)

lemma decode_bom:
  "utf8_decode_loop new_utf8_decoder (0xEF # 0xBB # 0xBF # rest) =
     map_option (Cons 0xFEFF) (utf8_decode_loop new_utf8_decoder rest)"
proof -
  have "utf8_decode_loop new_utf8_decoder (0xEF # 0xBB # 0xBF # rest) =
      utf8_decode_loop \<lparr>code_point = unat (0xEF :: byte) mod 16, bytes_seen = 0, bytes_needed = 2,
        lower_boundary = (if (0xEF :: byte) = 0xE0 then 0xA0 else 0x80),
        upper_boundary = (if (0xEF :: byte) = 0xED then 0x9F else 0xBF)\<rparr> (0xBB # 0xBF # rest)"
    by (rule loop_lead3) simp_all
  then show ?thesis
    by (simp add: loop_two_more)
qed

lemma to_scalar_values_plain:
  assumes "\<not> is_high_surrogate c" and "\<not> is_low_surrogate c"
  shows "to_scalar_values (c # rest) = unat c # to_scalar_values rest"
  using assms by (cases rest) simp_all

lemma to_scalar_values_pair:
  assumes "is_high_surrogate c" and "is_low_surrogate d"
  shows "to_scalar_values (c # d # rest) =
     (0x10000 + (unat c - 0xD800) * 0x400 + (unat d - 0xDC00)) # to_scalar_values rest"
  using assms by simp

lemma surrogate_unat:
  "is_high_surrogate c \<longleftrightarrow> 0xD800 \<le> unat c \<and> unat c \<le> 0xDBFF"
  "is_low_surrogate c \<longleftrightarrow> 0xDC00 \<le> unat c \<and> unat c \<le> 0xDFFF"
  by (simp_all add: is_high_surrogate_def is_low_surrogate_def word_le_nat_alt)

lemma utf16_round_trip_one:
  assumes "scalar_value cp"
  shows "to_scalar_values (utf16_code_units cp @ rest) = cp # to_scalar_values rest"
proof (cases "cp < 0x10000")
  case True
  then have u: "unat (word_of_nat cp :: code_unit) = cp"
    by (simp add: unat_word_of_nat_16)
  from assms True have "cp < 0xD800 \<or> 0xE000 \<le> cp"
    by (auto simp: scalar_value_def)
  then have "\<not> is_high_surrogate (word_of_nat cp)" "\<not> is_low_surrogate (word_of_nat cp)"
    unfolding surrogate_unat u by linarith+
  then have "to_scalar_values (word_of_nat cp # rest) = cp # to_scalar_values rest"
    using to_scalar_values_plain [of "word_of_nat cp" rest] by (simp only: u simp_thms)
  with True show ?thesis
    by (simp add: utf16_code_units_def)
next
  case False
  define q where "q = (cp - 0x10000) div 0x400"
  define r where "r = (cp - 0x10000) mod 0x400"
  from assms False have "cp - 0x10000 < 0x400 * 0x400"
    by (auto simp: scalar_value_def)
  then have q: "q < 0x400"
    unfolding q_def by (simp only: less_mult_imp_div_less)
  have r: "r < 0x400"
    unfolding r_def by simp
  have cp: "cp = 0x10000 + q * 0x400 + r"
    using False unfolding q_def r_def by simp
  have uh: "unat (word_of_nat (0xD800 + q) :: code_unit) = 0xD800 + q"
    using q by (intro unat_word_of_nat_16) simp
  have ul: "unat (word_of_nat (0xDC00 + r) :: code_unit) = 0xDC00 + r"
    using r by (intro unat_word_of_nat_16) simp
  have "is_high_surrogate (word_of_nat (0xD800 + q))"
    unfolding surrogate_unat uh using q by simp
  moreover have "is_low_surrogate (word_of_nat (0xDC00 + r))"
    unfolding surrogate_unat ul using r by simp
  ultimately have "to_scalar_values (word_of_nat (0xD800 + q) # word_of_nat (0xDC00 + r) # rest) =
      (0x10000 + (unat (word_of_nat (0xD800 + q) :: code_unit) - 0xD800) * 0x400
        + (unat (word_of_nat (0xDC00 + r) :: code_unit) - 0xDC00)) # to_scalar_values rest"
    by (rule to_scalar_values_pair)
  also have "\<dots> = cp # to_scalar_values rest"
    unfolding uh ul cp by simp
  finally show ?thesis
    using False by (simp add: utf16_code_units_def q_def r_def del: of_nat_add)
qed

lemma utf16_round_trip:
  "list_all scalar_value cps \<Longrightarrow> to_scalar_values (concat (map utf16_code_units cps)) = cps"
  by (induction cps) (simp_all add: utf16_round_trip_one)

lemma list_all_strip_bom: "list_all scalar_value cps \<Longrightarrow> list_all scalar_value (strip_bom cps)"
  by (cases cps) (simp_all add: strip_bom_def)

lemma encode_bom: "utf8_encode_code_point 0xFEFF = [0xEF, 0xBB, 0xBF]"
  by (simp add: utf8_encode_code_point_def)

lemma text_round_trip_valid:
  assumes "valid_utf8 b"
  shows "stringToUint8Array (uint8ArrayToString b) =
     (if take 3 b = [0xEF, 0xBB, 0xBF] then drop 3 b else b)"
proof -
  from assms obtain cps where dec: "utf8_decode_loop new_utf8_decoder b = Some cps"
    and scalars: "list_all scalar_value cps"
    and enc: "concat (map utf8_encode_code_point cps) = b"
    by (rule decode_valid)
  have "uint8ArrayToString b = concat (map utf16_code_units (strip_bom cps))"
    by (simp add: uint8ArrayToString_def text_decode_fatal_def dec)
  then have result: "stringToUint8Array (uint8ArrayToString b) =
      concat (map utf8_encode_code_point (strip_bom cps))"
    using list_all_strip_bom [OF scalars]
    by (simp add: stringToUint8Array_def utf16_round_trip)
  show ?thesis
  proof (cases "take 3 b = [0xEF, 0xBB, 0xBF]")
    case True
    then have b: "b = 0xEF # 0xBB # 0xBF # drop 3 b"
      by (metis append_take_drop_id append_Cons append_Nil)
    from dec obtain rest where cps: "cps = 0xFEFF # rest"
      by (subst (asm) b, unfold decode_bom) auto
    with enc have "drop 3 b = concat (map utf8_encode_code_point rest)"
      by (auto simp: encode_bom)
    with True show ?thesis
      by (simp add: result cps strip_bom_def)
  next
    case False
    have "strip_bom cps = cps"
    proof (cases cps)
      case Nil
      then show ?thesis by (simp add: strip_bom_def)
    next
      case (Cons cp rest)
      have "cp \<noteq> 0xFEFF"
      proof
        assume "cp = 0xFEFF"
        with enc Cons have "take 3 b = [0xEF, 0xBB, 0xBF]"
          by (auto simp: encode_bom)
        with False show False ..
      qed
      with Cons show ?thesis by (simp add: strip_bom_def)
    qed
    with False show ?thesis
      by (simp add: result enc)
  qed
qed

lemma sentinel_bytes:
  "stringToUint8Array (js ''[Binary Content]'') =
     [0x5B, 0x42, 0x69, 0x6E, 0x61, 0x72, 0x79, 0x20, 0x43, 0x6F, 0x6E, 0x74, 0x65, 0x6E, 0x74, 0x5D]"
  by (simp add: stringToUint8Array_def js_def is_high_surrogate_def is_low_surrogate_def
      utf8_encode_code_point_def)

lemma text_round_trip_invalid:
  assumes "\<not> valid_utf8 b"
  shows "stringToUint8Array (uint8ArrayToString b) = stringToUint8Array (js ''[Binary Content]'')"
    and "stringToUint8Array (uint8ArrayToString b) \<noteq> b"
proof -
  have "uint8ArrayToString b = js ''[Binary Content]''"
    by (simp add: uint8ArrayToString_def text_decode_fatal_def decode_invalid [OF assms])
  then show first: "stringToUint8Array (uint8ArrayToString b) = stringToUint8Array (js ''[Binary Content]'')"
    by simp
  have "valid_utf8 (stringToUint8Array (js ''[Binary Content]''))"
    unfolding sentinel_bytes by simp
  with assms show "stringToUint8Array (uint8ArrayToString b) \<noteq> b"
    unfolding first by metis
qed

lemmas text_eval =
  uint8ArrayToString_def text_decode_fatal_def utf8_decode_loop.simps utf8_handler_def
  new_utf8_decoder_def strip_bom_def utf16_code_units_def stringToUint8Array_def
  is_high_surrogate_def is_low_surrogate_def utf8_encode_code_point_def is_continuation_def
  js_def

text \<open>
  C7 (as stated): every valid UTF-8 byte sequence would survive decoding to text and
  encoding back. It does not when it starts with a byte order mark: \<open>EF BB BF 41\<close> is
  valid UTF-8, the decoder drops the mark and gives \<open>"A"\<close>, which encodes to \<open>41\<close>.
\<close>

theorem text_round_trip_counterexample:
  "valid_utf8 [0xEF, 0xBB, 0xBF, 0x41] \<and>
   uint8ArrayToString [0xEF, 0xBB, 0xBF, 0x41] = js ''A'' \<and>
   stringToUint8Array (uint8ArrayToString [0xEF, 0xBB, 0xBF, 0x41]) = [0x41] \<and>
   stringToUint8Array (uint8ArrayToString [0xEF, 0xBB, 0xBF, 0x41]) \<noteq> [0xEF, 0xBB, 0xBF, 0x41]"
  by (simp add: text_eval)

text \<open>
  C7 (amended): a valid UTF-8 byte sequence that does not start with the byte order
  mark \<open>EF BB BF\<close> survives decoding to text and encoding back; one that starts with the
  mark comes back without these three bytes; and a sequence that is not valid UTF-8
  never comes back (it decodes to the placeholder text).
\<close>

theorem text_round_trip:
  "(valid_utf8 b \<and> take 3 b \<noteq> [0xEF, 0xBB, 0xBF] \<longrightarrow>
      stringToUint8Array (uint8ArrayToString b) = b) \<and>
   (valid_utf8 b \<and> take 3 b = [0xEF, 0xBB, 0xBF] \<longrightarrow>
      stringToUint8Array (uint8ArrayToString b) = drop 3 b) \<and>
   (\<not> valid_utf8 b \<longrightarrow>
      uint8ArrayToString b = js ''[Binary Content]'' \<and>
      stringToUint8Array (uint8ArrayToString b) \<noteq> b)"
proof (intro conjI impI)
  assume "valid_utf8 b \<and> take 3 b \<noteq> [0xEF, 0xBB, 0xBF]"
  then show "stringToUint8Array (uint8ArrayToString b) = b"
    by (simp add: text_round_trip_valid)
next
  assume "valid_utf8 b \<and> take 3 b = [0xEF, 0xBB, 0xBF]"
  then show "stringToUint8Array (uint8ArrayToString b) = drop 3 b"
    by (simp add: text_round_trip_valid)
next
  assume invalid: "\<not> valid_utf8 b"
  then show "uint8ArrayToString b = js ''[Binary Content]''"
    by (simp add: uint8ArrayToString_def text_decode_fatal_def decode_invalid)
  from invalid show "stringToUint8Array (uint8ArrayToString b) \<noteq> b"
    by (rule text_round_trip_invalid)
qed

theorem text_round_trip_witness:
  "valid_utf8 [0x48, 0xC3, 0xA9, 0xE2, 0x82, 0xAC, 0xF0, 0x9F, 0x98, 0x80] \<and>
   take 3 [0x48, 0xC3, 0xA9, 0xE2, 0x82, 0xAC, 0xF0, 0x9F, 0x98, 0x80] \<noteq> [0xEF, 0xBB, 0xBF :: byte] \<and>
   stringToUint8Array (uint8ArrayToString [0x48, 0xC3, 0xA9, 0xE2, 0x82, 0xAC, 0xF0, 0x9F, 0x98, 0x80])
     = [0x48, 0xC3, 0xA9, 0xE2, 0x82, 0xAC, 0xF0, 0x9F, 0x98, 0x80] \<and>
   valid_utf8 [0xEF, 0xBB, 0xBF, 0x6B] \<and>
   stringToUint8Array (uint8ArrayToString [0xEF, 0xBB, 0xBF, 0x6B]) = [0x6B] \<and>
   \<not> valid_utf8 [0xC0, 0x80] \<and>
   stringToUint8Array (uint8ArrayToString [0xC0, 0x80]) \<noteq> [0xC0, 0x80]"
proof -
  have valid: "valid_utf8 [0x48, 0xC3, 0xA9, 0xE2, 0x82, 0xAC, 0xF0, 0x9F, 0x98, 0x80]"
    and no_bom: "take 3 [0x48, 0xC3, 0xA9, 0xE2, 0x82, 0xAC, 0xF0, 0x9F, 0x98, 0x80]
      \<noteq> [0xEF, 0xBB, 0xBF :: byte]"
    and marked: "valid_utf8 [0xEF, 0xBB, 0xBF, 0x6B]"
      "take 3 [0xEF, 0xBB, 0xBF, 0x6B] = [0xEF, 0xBB, 0xBF :: byte]"
      "drop 3 [0xEF, 0xBB, 0xBF, 0x6B] = [0x6B :: byte]"
    and invalid: "\<not> valid_utf8 [0xC0, 0x80]"
    by (simp_all add: is_continuation_def)
  from valid no_bom
    text_round_trip [of "[0x48, 0xC3, 0xA9, 0xE2, 0x82, 0xAC, 0xF0, 0x9F, 0x98, 0x80]"]
  have plain: "stringToUint8Array
      (uint8ArrayToString [0x48, 0xC3, 0xA9, 0xE2, 0x82, 0xAC, 0xF0, 0x9F, 0x98, 0x80])
      = [0x48, 0xC3, 0xA9, 0xE2, 0x82, 0xAC, 0xF0, 0x9F, 0x98, 0x80]"
    by blast
  from marked text_round_trip [of "[0xEF, 0xBB, 0xBF, 0x6B]"]
  have dropped: "stringToUint8Array (uint8ArrayToString [0xEF, 0xBB, 0xBF, 0x6B]) = [0x6B]"
    by metis
  from invalid text_round_trip [of "[0xC0, 0x80]"]
  have lost: "stringToUint8Array (uint8ArrayToString [0xC0, 0x80]) \<noteq> [0xC0, 0x80]"
    by blast
  from valid no_bom plain marked(1) dropped invalid lost show ?thesis
    by (intro conjI)
qed

end
